theory Spec2Isabelle
  imports Main "HOL-Library.Monad_Syntax" "HOL-Library.Word"
begin

section \<open>The skip list of jump\_list.h as a program over an explicit heap\<close>

text \<open>
  The container of \<^verbatim>\<open>src/include/jump_list.h\<close> is a graph of heap nodes linked by raw
  pointers. The model keeps that graph: a node address is a natural number, a
  \<^verbatim>\<open>Node*\<close> is an optional address (\<open>None\<close> is \<^verbatim>\<open>nullptr\<close>), and the memory is a
  partial map from addresses to nodes. Every operation is a function in the option monad:
  the value \<open>None\<close> stands for a run that has no defined result (a null or dangling
  pointer is dereferenced, a vector is indexed out of range, the allocator hands out
  storage that is still in use, or a loop over the links never ends).
\<close>

subsection \<open>Nodes, memory, container state\<close>

type_synonym addr = nat
type_synonym ptr = "addr option"

record 'a Node =
  data :: 'a
  forward :: "ptr list"
  backward :: ptr

type_synonym 'a memory = "addr \<Rightarrow> 'a Node option"

text \<open>
  The random source: \<^verbatim>\<open>std::uniform_real_distribution<double>(0.0, 1.0)(rng) < P\<close> is
  one Bernoulli draw. The generator state is the sequence of the outcomes of all
  draws still to come; a draw reads element 0 and shifts the sequence.
\<close>

type_synonym rng_state = "nat \<Rightarrow> bool"

text \<open>
  The fields of \<^verbatim>\<open>class jump_list\<close>, together with the memory its nodes live in.
  \<^verbatim>\<open>int level\<close> only takes values from 0 to \<open>MAX_LEVEL\<close> and is a natural number here;
  \<^verbatim>\<open>size_t size_\<close> is the 64-bit word \<open>size_m\<close>, so \<^verbatim>\<open>++size_\<close> and \<^verbatim>\<open>--size_\<close> wrap as
  they do in C++; \<^verbatim>\<open>size()\<close> returns this field. \<^verbatim>\<open>Compare comp\<close> is the field \<open>comp_m\<close>.
\<close>

record 'a jump_list =
  mem :: "'a memory"
  header :: addr
  level :: nat
  size_m :: "64 word"
  comp_m :: "'a \<Rightarrow> 'a \<Rightarrow> bool"
  rng :: rng_state

definition MAX_LEVEL :: nat where
  "MAX_LEVEL = 32"

record iterator =
  it_node :: ptr
  it_header :: ptr

subsection \<open>Reading and writing node fields\<close>

definition forward_at :: "'a memory \<Rightarrow> addr \<Rightarrow> nat \<Rightarrow> ptr option" where
  \<comment> \<open>\<^verbatim>\<open>a->forward[i]\<close>\<close>
  "forward_at h a i =
     (case h a of
        None \<Rightarrow> None
      | Some n \<Rightarrow> if i < length (forward n) then Some (forward n ! i) else None)"

definition set_forward :: "'a memory \<Rightarrow> addr \<Rightarrow> nat \<Rightarrow> ptr \<Rightarrow> 'a memory option" where
  \<comment> \<open>\<^verbatim>\<open>a->forward[i] = p\<close>\<close>
  "set_forward h a i p =
     (case h a of
        None \<Rightarrow> None
      | Some n \<Rightarrow>
          if i < length (forward n)
          then Some (h(a \<mapsto> n\<lparr>forward := (forward n)[i := p]\<rparr>))
          else None)"

definition set_backward :: "'a memory \<Rightarrow> addr \<Rightarrow> ptr \<Rightarrow> 'a memory option" where
  \<comment> \<open>\<^verbatim>\<open>a->backward = p\<close>\<close>
  "set_backward h a p =
     (case h a of
        None \<Rightarrow> None
      | Some n \<Rightarrow> Some (h(a \<mapsto> n\<lparr>backward := p\<rparr>)))"

definition deref :: "'a memory \<Rightarrow> ptr \<Rightarrow> 'a Node option" where
  "deref h p = (case p of None \<Rightarrow> None | Some a \<Rightarrow> h a)"

subsection \<open>Level generator\<close>

text \<open>
  \<^verbatim>\<open>while (draw < P && lvl < MAX_LEVEL) lvl++;\<close> The draw is the left operand of
  \<^verbatim>\<open>&&\<close>, so every test of the condition consumes one draw, also the last one.
\<close>

function randomLevel_loop :: "rng_state \<Rightarrow> nat \<Rightarrow> nat \<times> rng_state" where
  "randomLevel_loop g lvl =
     (if g 0 \<and> lvl < MAX_LEVEL
      then randomLevel_loop (\<lambda>n. g (Suc n)) (Suc lvl)
      else (lvl, \<lambda>n. g (Suc n)))"
  by pat_completeness auto
termination
  by (relation "measure (\<lambda>(g, lvl). MAX_LEVEL - lvl)") auto

declare randomLevel_loop.simps [simp del]

definition randomLevel :: "rng_state \<Rightarrow> nat \<times> rng_state" where
  "randomLevel g = randomLevel_loop g 0"

subsection \<open>Traversal engine\<close>

text \<open>
  The inner loop \<^verbatim>\<open>while (current->forward[i] && precedes(current->forward[i]->data))
  current = current->forward[i];\<close> where \<open>precedes x\<close> is \<^verbatim>\<open>comp(x, key)\<close> for
  find, insert, erase and lower\_bound, and \<^verbatim>\<open>!comp(key, x)\<close> for upper\_bound.
\<close>

partial_function (option) walk_level ::
  "'a memory \<Rightarrow> ('a \<Rightarrow> bool) \<Rightarrow> nat \<Rightarrow> addr \<Rightarrow> addr option" where
  "walk_level h precedes i current =
     do {
       nx \<leftarrow> forward_at h current i;
       case nx of
         None \<Rightarrow> Some current
       | Some n \<Rightarrow>
           do {
             nd \<leftarrow> h n;
             if precedes (data nd) then walk_level h precedes i n else Some current
           }
     }"

declare walk_level.simps [code]

text \<open>
  \<^verbatim>\<open>for (int i = level; i >= 0; --i) { inner loop; update[i] = current; }\<close> as used by
  insert and erase; it returns the final \<open>current\<close> and the update trail.
\<close>

fun search_update ::
  "'a memory \<Rightarrow> ('a \<Rightarrow> bool) \<Rightarrow> nat \<Rightarrow> addr \<Rightarrow> ptr list \<Rightarrow> (addr \<times> ptr list) option" where
  "search_update h precedes 0 current update =
     do {
       c \<leftarrow> walk_level h precedes 0 current;
       if 0 < length update then Some (c, update[0 := Some c]) else None
     }"
| "search_update h precedes (Suc i) current update =
     do {
       c \<leftarrow> walk_level h precedes (Suc i) current;
       if Suc i < length update
       then search_update h precedes i c (update[Suc i := Some c])
       else None
     }"

text \<open>The same descent without the trail, as in find, lower\_bound and upper\_bound.\<close>

fun search ::
  "'a memory \<Rightarrow> ('a \<Rightarrow> bool) \<Rightarrow> nat \<Rightarrow> addr \<Rightarrow> addr option" where
  "search h precedes 0 current = walk_level h precedes 0 current"
| "search h precedes (Suc i) current =
     do {
       c \<leftarrow> walk_level h precedes (Suc i) current;
       search h precedes i c
     }"

subsection \<open>Construction, iterators, capacity\<close>

text \<open>
  The constructors allocate the header with \<open>MAX_LEVEL + 1\<close> null forward links and a null
  backward link. \<open>hd_addr\<close> is the storage the allocator returns for it, \<open>d0\<close> the payload
  the header's unused \<^verbatim>\<open>T data\<close> member holds.
\<close>

definition header_node :: "'a \<Rightarrow> 'a Node" where
  "header_node d0 = \<lparr>data = d0, forward = replicate (MAX_LEVEL + 1) None, backward = None\<rparr>"

definition jump_list_new ::
  "'a memory \<Rightarrow> addr \<Rightarrow> 'a \<Rightarrow> ('a \<Rightarrow> 'a \<Rightarrow> bool) \<Rightarrow> rng_state \<Rightarrow> 'a jump_list option" where
  "jump_list_new h hd_addr d0 c g =
     (if h hd_addr \<noteq> None then None
      else Some \<lparr>mem = h(hd_addr \<mapsto> header_node d0), header = hd_addr, level = 0,
                 size_m = 0, comp_m = c, rng = g\<rparr>)"

definition begin_it :: "'a jump_list \<Rightarrow> iterator option" where
  "begin_it s =
     do {
       f \<leftarrow> forward_at (mem s) (header s) 0;
       Some \<lparr>it_node = f, it_header = Some (header s)\<rparr>
     }"

definition end_it :: "'a jump_list \<Rightarrow> iterator" where
  "end_it s = \<lparr>it_node = None, it_header = Some (header s)\<rparr>"

definition it_eq :: "iterator \<Rightarrow> iterator \<Rightarrow> bool" where
  \<comment> \<open>\<^verbatim>\<open>operator==\<close> of the iterators compares the node pointers only\<close>
  "it_eq a b = (it_node a = it_node b)"

definition it_deref :: "'a memory \<Rightarrow> iterator \<Rightarrow> 'a option" where
  \<comment> \<open>\<^verbatim>\<open>*it\<close>\<close>
  "it_deref h it = map_option data (deref h (it_node it))"

definition it_next :: "'a memory \<Rightarrow> iterator \<Rightarrow> iterator option" where
  \<comment> \<open>\<^verbatim>\<open>++it\<close>\<close>
  "it_next h it =
     (case it_node it of
        None \<Rightarrow> None
      | Some a \<Rightarrow> do { f \<leftarrow> forward_at h a 0; Some (it\<lparr>it_node := f\<rparr>) })"

subsection \<open>Small pieces shared by the operations\<close>

text \<open>A counted \<^verbatim>\<open>for\<close> loop over the indices \<open>is\<close>, threading the loop's state.\<close>

fun for_loop :: "nat list \<Rightarrow> (nat \<Rightarrow> 'b \<Rightarrow> 'b option) \<Rightarrow> 'b \<Rightarrow> 'b option" where
  "for_loop [] body x = Some x"
| "for_loop (i # is) body x = do { y \<leftarrow> body i x; for_loop is body y }"

definition at_index :: "'b list \<Rightarrow> nat \<Rightarrow> 'b option" where
  \<comment> \<open>\<^verbatim>\<open>v[i]\<close> of a \<^verbatim>\<open>std::vector\<close>\<close>
  "at_index v i = (if i < length v then Some (v ! i) else None)"

definition put_index :: "'b list \<Rightarrow> nat \<Rightarrow> 'b \<Rightarrow> 'b list option" where
  \<comment> \<open>\<^verbatim>\<open>v[i] = x\<close> of a \<^verbatim>\<open>std::vector\<close>\<close>
  "put_index v i x = (if i < length v then Some (v[i := x]) else None)"

datatype alloc_outcome = AllocThrows | ConstructThrows addr | Created addr

datatype exn = BadAlloc | ConstructorThrew

text \<open>
  \<^verbatim>\<open>createNode\<close>: \<^verbatim>\<open>allocate\<close> either throws or returns storage at an address; then
  \<^verbatim>\<open>construct\<close> either throws, in which case the storage is given back and the exception
  is passed on, or builds the node. What the allocator and the constructor do is the
  parameter \<open>out\<close>.
\<close>

definition createNode ::
  "'a memory \<Rightarrow> 'a \<Rightarrow> nat \<Rightarrow> alloc_outcome \<Rightarrow> ((exn + addr) \<times> 'a memory) option" where
  "createNode h val lvl out =
     (case out of
        AllocThrows \<Rightarrow> Some (Inl BadAlloc, h)
      | ConstructThrows a \<Rightarrow> if h a \<noteq> None then None else Some (Inl ConstructorThrew, h)
      | Created a \<Rightarrow>
          if h a \<noteq> None then None
          else Some (Inr a,
                 h(a \<mapsto> \<lparr>data = val, forward = replicate (lvl + 1) None, backward = None\<rparr>)))"

definition destroyNode :: "'a memory \<Rightarrow> addr \<Rightarrow> ptr \<Rightarrow> 'a memory option" where
  "destroyNode h hdr node =
     (case node of
        None \<Rightarrow> Some h
      | Some a \<Rightarrow>
          if a = hdr then Some h
          else if h a = None then None
          else Some (h(a := None)))"

subsection \<open>insert\<close>

definition splice :: "ptr list \<Rightarrow> addr \<Rightarrow> nat \<Rightarrow> 'a memory \<Rightarrow> 'a memory option" where
  \<comment> \<open>\<^verbatim>\<open>newNode->forward[i] = update[i]->forward[i]; update[i]->forward[i] = newNode;\<close>\<close>
  "splice update newNode i h =
     do {
       u \<leftarrow> at_index update i;
       f \<leftarrow> (case u of None \<Rightarrow> None | Some ua \<Rightarrow> forward_at h ua i);
       h1 \<leftarrow> set_forward h newNode i f;
       case u of None \<Rightarrow> None | Some ua \<Rightarrow> set_forward h1 ua i (Some newNode)
     }"

text \<open>
  \<^verbatim>\<open>if (newLevel > level) { for (int i = level + 1; i <= newLevel; ++i) update[i] = header; }\<close>
\<close>

definition raise_trail :: "ptr list \<Rightarrow> addr \<Rightarrow> nat \<Rightarrow> nat \<Rightarrow> ptr list option" where
  "raise_trail update hdr lvl newLevel =
     (if newLevel > lvl
      then for_loop [lvl + 1 ..< Suc newLevel] (\<lambda>i u. put_index u i (Some hdr)) update
      else Some update)"

text \<open>The backward links of insert: \<^verbatim>\<open>newNode->backward = update[0]; if (newNode->forward[0]) ...\<close>\<close>

definition link_backward :: "'a memory \<Rightarrow> addr \<Rightarrow> addr \<Rightarrow> ptr \<Rightarrow> 'a memory option" where
  "link_backward h hdr newNode u0 =
     do {
       h1 \<leftarrow> set_backward h newNode u0;
       nf \<leftarrow> forward_at h1 newNode 0;
       case nf of
         Some nx \<Rightarrow> set_backward h1 nx (Some newNode)
       | None \<Rightarrow> set_backward h1 hdr (Some newNode)
     }"

text \<open>
  insert, from the comment \<^verbatim>\<open>// Insert new node\<close> on. Note the order of the source:
  \<^verbatim>\<open>level\<close> is raised before \<^verbatim>\<open>createNode\<close> is called.
\<close>

definition insert_new ::
  "'a jump_list \<Rightarrow> 'a \<Rightarrow> alloc_outcome \<Rightarrow> ptr list
     \<Rightarrow> ((exn + iterator \<times> bool) \<times> 'a jump_list) option" where
  "insert_new s val out update0 =
     (case randomLevel (rng s) of
        (newLevel, g) \<Rightarrow>
          do {
            update \<leftarrow> raise_trail update0 (header s) (level s) newLevel;
            let s1 = s\<lparr>level := (if newLevel > level s then newLevel else level s), rng := g\<rparr>;
            rh \<leftarrow> createNode (mem s1) val newLevel out;
            case fst rh of
              Inl e \<Rightarrow> Some (Inl e, s1)
            | Inr newNode \<Rightarrow>
                do {
                  h \<leftarrow> for_loop [0 ..< Suc newLevel] (splice update newNode) (snd rh);
                  u0 \<leftarrow> at_index update 0;
                  h \<leftarrow> link_backward h (header s1) newNode u0;
                  Some (Inr (\<lparr>it_node = Some newNode, it_header = Some (header s1)\<rparr>, True),
                        s1\<lparr>mem := h, size_m := size_m s1 + 1\<rparr>)
                }
          })"

definition insert_value ::
  "'a jump_list \<Rightarrow> 'a \<Rightarrow> alloc_outcome \<Rightarrow> ((exn + iterator \<times> bool) \<times> 'a jump_list) option" where
  "insert_value s val out =
     do {
       cu \<leftarrow> search_update (mem s) (\<lambda>x. comp_m s x val) (level s) (header s)
               (replicate (MAX_LEVEL + 1) None);
       current \<leftarrow> forward_at (mem s) (fst cu) 0;
       exists \<leftarrow> (case current of
                    None \<Rightarrow> Some False
                  | Some c \<Rightarrow>
                      do { n \<leftarrow> mem s c;
                           Some (\<not> comp_m s (data n) val \<and> \<not> comp_m s val (data n)) });
       if exists
       then Some (Inr (\<lparr>it_node = current, it_header = Some (header s)\<rparr>, False), s)
       else insert_new s val out (snd cu)
     }"

subsection \<open>erase\<close>

definition unlink :: "ptr list \<Rightarrow> addr \<Rightarrow> nat \<Rightarrow> 'a memory \<Rightarrow> 'a memory option" where
  \<comment> \<open>\<^verbatim>\<open>if (update[i]->forward[i] == current) update[i]->forward[i] = current->forward[i];\<close>\<close>
  "unlink update current i h =
     do {
       u \<leftarrow> at_index update i;
       case u of
         None \<Rightarrow> None
       | Some ua \<Rightarrow>
           do {
             f \<leftarrow> forward_at h ua i;
             if f = Some current
             then do { cf \<leftarrow> forward_at h current i; set_forward h ua i cf }
             else Some h
           }
     }"

fun shrink_level :: "'a memory \<Rightarrow> addr \<Rightarrow> nat \<Rightarrow> nat option" where
  \<comment> \<open>\<^verbatim>\<open>while (level > 0 && !header->forward[level]) --level;\<close>\<close>
  "shrink_level h hdr 0 = Some 0"
| "shrink_level h hdr (Suc l) =
     do {
       f \<leftarrow> forward_at h hdr (Suc l);
       if f = None then shrink_level h hdr l else Some (Suc l)
     }"

text \<open>The backward links of erase: \<^verbatim>\<open>Node* prev = current->backward; if (next_node) ...\<close>\<close>

definition unlink_backward :: "'a memory \<Rightarrow> addr \<Rightarrow> addr \<Rightarrow> ptr \<Rightarrow> 'a memory option" where
  "unlink_backward h hdr current next_node =
     do {
       cn \<leftarrow> h current;
       let prev = backward cn;
       case next_node of
         Some nx \<Rightarrow> set_backward h nx prev
       | None \<Rightarrow> set_backward h hdr prev
     }"

text \<open>erase, from \<^verbatim>\<open>Node* next_node = current->forward[0];\<close> on.\<close>

definition erase_node ::
  "'a jump_list \<Rightarrow> addr \<Rightarrow> ptr list \<Rightarrow> (iterator \<times> 'a jump_list) option" where
  "erase_node s current update =
     do {
       next_node \<leftarrow> forward_at (mem s) current 0;
       h \<leftarrow> for_loop [0 ..< Suc (level s)] (unlink update current) (mem s);
       h \<leftarrow> unlink_backward h (header s) current next_node;
       h \<leftarrow> destroyNode h (header s) (Some current);
       l \<leftarrow> shrink_level h (header s) (level s);
       Some (\<lparr>it_node = next_node, it_header = Some (header s)\<rparr>,
             s\<lparr>mem := h, level := l, size_m := size_m s - 1\<rparr>)
     }"

definition erase_pos :: "'a jump_list \<Rightarrow> iterator \<Rightarrow> (iterator \<times> 'a jump_list) option" where
  "erase_pos s pos =
     (if it_eq pos (end_it s) then Some (end_it s, s)
      else
        do {
          val \<leftarrow> it_deref (mem s) pos;
          cu \<leftarrow> search_update (mem s) (\<lambda>x. comp_m s x val) (level s) (header s)
                  (replicate (MAX_LEVEL + 1) None);
          current \<leftarrow> forward_at (mem s) (fst cu) 0;
          case current of
            None \<Rightarrow> Some (end_it s, s)
          | Some c \<Rightarrow>
              do {
                n \<leftarrow> mem s c;
                if comp_m s (data n) val \<or> comp_m s val (data n) then Some (end_it s, s)
                else erase_node s c (snd cu)
              }
        })"

partial_function (option) erase_range_loop ::
  "'a jump_list \<Rightarrow> iterator \<Rightarrow> iterator \<Rightarrow> iterator \<Rightarrow> (iterator \<times> 'a jump_list) option" where
  "erase_range_loop s first last_it result =
     (if it_eq first last_it then Some (result, s)
      else
        do {
          nxt \<leftarrow> it_next (mem s) first;
          rs \<leftarrow> erase_pos s first;
          erase_range_loop (snd rs) nxt last_it (fst rs)
        })"

declare erase_range_loop.simps [code]

definition erase_range ::
  "'a jump_list \<Rightarrow> iterator \<Rightarrow> iterator \<Rightarrow> (iterator \<times> 'a jump_list) option" where
  "erase_range s first last_it = erase_range_loop s first last_it (end_it s)"

subsection \<open>Lookup\<close>

definition find_key :: "'a jump_list \<Rightarrow> 'a \<Rightarrow> iterator option" where
  "find_key s key =
     do {
       cur \<leftarrow> search (mem s) (\<lambda>x. comp_m s x key) (level s) (header s);
       current \<leftarrow> forward_at (mem s) cur 0;
       case current of
         None \<Rightarrow> Some (end_it s)
       | Some c \<Rightarrow>
           do {
             n \<leftarrow> mem s c;
             if \<not> comp_m s (data n) key \<and> \<not> comp_m s key (data n)
             then Some \<lparr>it_node = Some c, it_header = Some (header s)\<rparr>
             else Some (end_it s)
           }
     }"

definition erase_key :: "'a jump_list \<Rightarrow> 'a \<Rightarrow> (64 word \<times> 'a jump_list) option" where
  "erase_key s key =
     do {
       it \<leftarrow> find_key s key;
       if \<not> it_eq it (end_it s)
       then do { rs \<leftarrow> erase_pos s it; Some (1, snd rs) }
       else Some (0, s)
     }"

definition equal_range :: "'a jump_list \<Rightarrow> 'a \<Rightarrow> (iterator \<times> iterator) option" where
  "equal_range s key =
     do {
       it \<leftarrow> find_key s key;
       if it_eq it (end_it s) then Some (it, it)
       else do { nxt \<leftarrow> it_next (mem s) it; Some (it, nxt) }
     }"

definition lower_bound :: "'a jump_list \<Rightarrow> 'a \<Rightarrow> iterator option" where
  "lower_bound s key =
     do {
       cur \<leftarrow> search (mem s) (\<lambda>x. comp_m s x key) (level s) (header s);
       f \<leftarrow> forward_at (mem s) cur 0;
       Some \<lparr>it_node = f, it_header = Some (header s)\<rparr>
     }"

definition upper_bound :: "'a jump_list \<Rightarrow> 'a \<Rightarrow> iterator option" where
  "upper_bound s key =
     do {
       cur \<leftarrow> search (mem s) (\<lambda>x. \<not> comp_m s key x) (level s) (header s);
       f \<leftarrow> forward_at (mem s) cur 0;
       Some \<lparr>it_node = f, it_header = Some (header s)\<rparr>
     }"

subsection \<open>clear\<close>

partial_function (option) clear_loop :: "'a memory \<Rightarrow> addr \<Rightarrow> ptr \<Rightarrow> 'a memory option" where
  "clear_loop h hdr current =
     (case current of
        None \<Rightarrow> Some h
      | Some c \<Rightarrow>
          do {
            nxt \<leftarrow> forward_at h c 0;
            h1 \<leftarrow> destroyNode h hdr (Some c);
            clear_loop h1 hdr nxt
          })"

declare clear_loop.simps [code]

definition clear :: "'a jump_list \<Rightarrow> 'a jump_list option" where
  "clear s =
     do {
       current \<leftarrow> forward_at (mem s) (header s) 0;
       h \<leftarrow> clear_loop (mem s) (header s) current;
       h \<leftarrow> for_loop [0 ..< Suc MAX_LEVEL] (\<lambda>i m. set_forward m (header s) i None) h;
       h \<leftarrow> set_backward h (header s) None;
       Some (s\<lparr>mem := h, level := 0, size_m := 0\<rparr>)
     }"

subsection \<open>Iteration and whole-container comparison\<close>

text \<open>
  \<^verbatim>\<open>for (it = begin(); it != end(); ++it)\<close>: the addresses of the nodes visited, and the
  values read there.
\<close>

partial_function (option) nodes_from :: "'a memory \<Rightarrow> ptr \<Rightarrow> addr list option" where
  "nodes_from h p =
     (case p of
        None \<Rightarrow> Some []
      | Some a \<Rightarrow>
          do {
            nxt \<leftarrow> forward_at h a 0;
            rest \<leftarrow> nodes_from h nxt;
            Some (a # rest)
          })"

declare nodes_from.simps [code]

definition iter_nodes :: "'a jump_list \<Rightarrow> addr list option" where
  "iter_nodes s = do { b \<leftarrow> begin_it s; nodes_from (mem s) (it_node b) }"

definition value_at :: "'a memory \<Rightarrow> addr \<Rightarrow> 'a option" where
  "value_at h a = map_option data (h a)"

definition elements :: "'a jump_list \<Rightarrow> 'a list option" where
  "elements s =
     do {
       ns \<leftarrow> iter_nodes s;
       those (map (value_at (mem s)) ns)
     }"

text \<open>
  \<^verbatim>\<open>std::equal(first1, last1, first2)\<close> and
  \<^verbatim>\<open>std::lexicographical_compare(first1, last1, first2, last2)\<close> of the standard library,
  over the container's iterators. They compare elements with the element type's own
  \<^verbatim>\<open>operator==\<close> and \<^verbatim>\<open>operator<\<close>, the parameters \<open>eq\<close> and \<open>lt\<close>.
\<close>

partial_function (option) std_equal ::
  "('a \<Rightarrow> 'a \<Rightarrow> bool) \<Rightarrow> 'a memory \<Rightarrow> iterator \<Rightarrow> iterator \<Rightarrow> 'a memory \<Rightarrow> iterator
     \<Rightarrow> bool option" where
  "std_equal eq h1 first1 last1 h2 first2 =
     (if it_eq first1 last1 then Some True
      else
        do {
          x \<leftarrow> it_deref h1 first1;
          y \<leftarrow> it_deref h2 first2;
          if \<not> eq x y then Some False
          else
            do {
              n1 \<leftarrow> it_next h1 first1;
              n2 \<leftarrow> it_next h2 first2;
              std_equal eq h1 n1 last1 h2 n2
            }
        })"

declare std_equal.simps [code]

partial_function (option) std_lexicographical_compare ::
  "('a \<Rightarrow> 'a \<Rightarrow> bool) \<Rightarrow> 'a memory \<Rightarrow> iterator \<Rightarrow> iterator \<Rightarrow> 'a memory \<Rightarrow> iterator
     \<Rightarrow> iterator \<Rightarrow> bool option" where
  "std_lexicographical_compare lt h1 first1 last1 h2 first2 last2 =
     (if \<not> it_eq first1 last1 \<and> \<not> it_eq first2 last2
      then
        do {
          x \<leftarrow> it_deref h1 first1;
          y \<leftarrow> it_deref h2 first2;
          if lt x y then Some True
          else if lt y x then Some False
          else
            do {
              n1 \<leftarrow> it_next h1 first1;
              n2 \<leftarrow> it_next h2 first2;
              std_lexicographical_compare lt h1 n1 last1 h2 n2 last2
            }
        }
      else Some (it_eq first1 last1 \<and> \<not> it_eq first2 last2))"

declare std_lexicographical_compare.simps [code]

definition jl_equal :: "('a \<Rightarrow> 'a \<Rightarrow> bool) \<Rightarrow> 'a jump_list \<Rightarrow> 'a jump_list \<Rightarrow> bool option" where
  \<comment> \<open>\<^verbatim>\<open>operator==\<close>\<close>
  "jl_equal eq lhs rhs =
     (if size_m lhs = size_m rhs
      then
        do {
          b1 \<leftarrow> begin_it lhs;
          b2 \<leftarrow> begin_it rhs;
          std_equal eq (mem lhs) b1 (end_it lhs) (mem rhs) b2
        }
      else Some False)"

definition jl_less :: "('a \<Rightarrow> 'a \<Rightarrow> bool) \<Rightarrow> 'a jump_list \<Rightarrow> 'a jump_list \<Rightarrow> bool option" where
  \<comment> \<open>\<^verbatim>\<open>operator<\<close>\<close>
  "jl_less lt lhs rhs =
     do {
       b1 \<leftarrow> begin_it lhs;
       b2 \<leftarrow> begin_it rhs;
       std_lexicographical_compare lt (mem lhs) b1 (end_it lhs) (mem rhs) b2 (end_it rhs)
     }"

section \<open>The container invariant\<close>

text \<open>
  \<open>chain h i p as\<close>: starting from pointer \<open>p\<close> and following the level-\<open>i\<close> forward links
  visits exactly the addresses \<open>as\<close> and then reaches \<^verbatim>\<open>nullptr\<close>.
\<close>

fun chain :: "'a memory \<Rightarrow> nat \<Rightarrow> ptr \<Rightarrow> addr list \<Rightarrow> bool" where
  "chain h i p [] = (p = None)"
| "chain h i p (a # as) =
     (p = Some a \<and> (case forward_at h a i of None \<Rightarrow> False | Some q \<Rightarrow> chain h i q as))"

definition height :: "'a memory \<Rightarrow> addr \<Rightarrow> nat" where
  \<comment> \<open>the number of forward links of the node at \<open>a\<close>; 0 when nothing is allocated there\<close>
  "height h a = (case h a of None \<Rightarrow> 0 | Some n \<Rightarrow> length (forward n))"

definition datum :: "'a memory \<Rightarrow> addr \<Rightarrow> 'a" where
  "datum h a = data (the (h a))"

definition at_level :: "'a memory \<Rightarrow> nat \<Rightarrow> addr list \<Rightarrow> addr list" where
  \<comment> \<open>the nodes of \<open>ns\<close> that take part in level \<open>i\<close>\<close>
  "at_level h i ns = filter (\<lambda>a. i < height h a) ns"

definition strict_weak_order :: "('a \<Rightarrow> 'a \<Rightarrow> bool) \<Rightarrow> bool" where
  "strict_weak_order c \<longleftrightarrow>
     (\<forall>x. \<not> c x x) \<and> (\<forall>x y z. c x y \<longrightarrow> c y z \<longrightarrow> c x z) \<and>
     (\<forall>x y z. c x y \<longrightarrow> c x z \<or> c z y)"

definition equiv :: "('a \<Rightarrow> 'a \<Rightarrow> bool) \<Rightarrow> 'a \<Rightarrow> 'a \<Rightarrow> bool" where
  \<comment> \<open>comparator-equivalence\<close>
  "equiv c x y \<longleftrightarrow> \<not> c x y \<and> \<not> c y x"

text \<open>
  \<open>jl_inv s ns\<close>: the container \<open>s\<close> is well formed and \<open>ns\<close> are the addresses of its
  element nodes in iteration order. The header has \<open>MAX_LEVEL + 1\<close> links, every element
  node between 1 and \<open>MAX_LEVEL + 1\<close>; at every level the forward links starting at the
  header run through exactly the nodes of that height, in the order of \<open>ns\<close>; the header
  has no link above \<open>level\<close>; the payloads ascend strictly; \<open>size_\<close> counts the nodes.
\<close>

definition jl_inv :: "'a jump_list \<Rightarrow> addr list \<Rightarrow> bool" where
  "jl_inv s ns \<longleftrightarrow>
     distinct ns \<and> header s \<notin> set ns \<and>
     height (mem s) (header s) = MAX_LEVEL + 1 \<and>
     (\<forall>a \<in> set ns. 0 < height (mem s) a \<and> height (mem s) a \<le> MAX_LEVEL + 1) \<and>
     (\<forall>i \<le> MAX_LEVEL.
        chain (mem s) i (Some (header s)) (header s # at_level (mem s) i ns)) \<and>
     level s \<le> MAX_LEVEL \<and>
     (\<forall>i. level s < i \<and> i \<le> MAX_LEVEL \<longrightarrow> forward_at (mem s) (header s) i = Some None) \<and>
     sorted_wrt (comp_m s) (map (datum (mem s)) ns) \<and>
     size_m s = of_nat (length ns)"

text \<open>Invariant 3 of the data model asks in addition that \<open>level\<close> is the least such value.\<close>

definition level_minimal :: "'a jump_list \<Rightarrow> bool" where
  "level_minimal s \<longleftrightarrow>
     (0 < level s \<longrightarrow> forward_at (mem s) (header s) (level s) \<noteq> Some None)"

definition trail :: "'a memory \<Rightarrow> addr \<Rightarrow> nat \<Rightarrow> addr list \<Rightarrow> addr" where
  \<comment> \<open>the last node of level \<open>i\<close> among the header and \<open>pre\<close>\<close>
  "trail h hdr i pre = last (hdr # at_level h i pre)"

text \<open>The update trail after the descent from level \<open>i\<close>.\<close>

definition trail_update :: "'a memory \<Rightarrow> addr \<Rightarrow> addr list \<Rightarrow> nat \<Rightarrow> ptr list \<Rightarrow> ptr list" where
  "trail_update h hdr pre i upd =
     map (\<lambda>j. if j \<le> i then Some (trail h hdr j pre) else upd ! j) [0 ..< length upd]"

text \<open>
  The state of the memory inside the linking loop of insert, before level \<open>j\<close> is handled:
  the new node \<open>a\<close> is linked in at the levels below \<open>j\<close>. \<open>h\<close> is the memory before
  the node was created, \<open>h1\<close> the memory right after.
\<close>

definition splice_inv ::
  "'a memory \<Rightarrow> 'a memory \<Rightarrow> addr \<Rightarrow> addr \<Rightarrow> addr list \<Rightarrow> addr list \<Rightarrow> nat \<Rightarrow> 'a memory \<Rightarrow> bool" where
  "splice_inv h h1 hdr a pre post j m \<longleftrightarrow>
     (\<forall>b. height m b = height h1 b \<and> datum m b = datum h1 b) \<and>
     (\<forall>i \<le> MAX_LEVEL.
        chain m i (Some hdr)
          (hdr # at_level h i pre @ (if i < j then [a] else []) @ at_level h i post))"

text \<open>
  The state of the memory inside the unlinking loop of erase, before level \<open>j\<close> is
  handled: the node \<open>c\<close> is taken out of the levels below \<open>j\<close>.
\<close>

definition unlink_inv ::
  "'a memory \<Rightarrow> addr \<Rightarrow> addr \<Rightarrow> addr list \<Rightarrow> addr list \<Rightarrow> nat \<Rightarrow> 'a memory \<Rightarrow> bool" where
  "unlink_inv h hdr c pre post j m \<longleftrightarrow>
     (\<forall>b. height m b = height h b \<and> datum m b = datum h b) \<and>
     (\<forall>i \<le> MAX_LEVEL.
        chain m i (Some hdr)
          (hdr # at_level h i pre @ (if i < j then [] else at_level h i [c]) @ at_level h i post))"

text \<open>The node that follows \<open>c\<close> in the iteration order \<open>ns\<close>, as a pointer.\<close>

fun successor :: "addr list \<Rightarrow> addr \<Rightarrow> ptr" where
  "successor [] c = None"
| "successor [x] c = None"
| "successor (x # y # r) c = (if x = c then Some y else successor (y # r) c)"

text \<open>The pointer to the first node of a list of nodes, \<^verbatim>\<open>nullptr\<close> for the empty list.\<close>

definition node_or_end :: "addr list \<Rightarrow> ptr" where
  "node_or_end xs = (case xs of [] \<Rightarrow> None | x # _ \<Rightarrow> Some x)"

subsection \<open>Sequences of public operations\<close>

text \<open>
  A client program, as far as the container sees it: a list of calls of the mutating public
  operations. An exception thrown by insert is caught by the client, which goes on.
\<close>

datatype 'a operation =
    Insert 'a alloc_outcome
  | EraseAt iterator
  | EraseKey 'a
  | EraseRange iterator iterator
  | Clear

fun apply_operation :: "'a jump_list \<Rightarrow> 'a operation \<Rightarrow> 'a jump_list option" where
  "apply_operation s (Insert v out) = map_option snd (insert_value s v out)"
| "apply_operation s (EraseAt pos) = map_option snd (erase_pos s pos)"
| "apply_operation s (EraseKey k) = map_option snd (erase_key s k)"
| "apply_operation s (EraseRange first last_it) = map_option snd (erase_range s first last_it)"
| "apply_operation s Clear = clear s"

fun run :: "'a jump_list \<Rightarrow> 'a operation list \<Rightarrow> 'a jump_list option" where
  "run s [] = Some s"
| "run s (x # xs) = do { s' \<leftarrow> apply_operation s x; run s' xs }"

subsection \<open>Lexicographic order, as a function on lists\<close>

text \<open>
  The first position where neither element is below the other decides; a proper prefix is
  below the longer list.
\<close>

fun lex_less :: "('a \<Rightarrow> 'a \<Rightarrow> bool) \<Rightarrow> 'a list \<Rightarrow> 'a list \<Rightarrow> bool" where
  "lex_less lt [] [] = False"
| "lex_less lt [] (y # ys) = True"
| "lex_less lt (x # xs) [] = False"
| "lex_less lt (x # xs) (y # ys) = (lt x y \<or> (\<not> lt y x \<and> lex_less lt xs ys))"

text \<open>
  The arguments a call may legitimately be given in state \<open>s\<close>: the allocator hands out
  storage that is free; an iterator passed to erase is \<open>end()\<close> or can be dereferenced; the
  two iterators of a range erase delimit a segment of the iteration order.
\<close>

fun valid_operation :: "'a jump_list \<Rightarrow> 'a operation \<Rightarrow> bool" where
  "valid_operation s (Insert v AllocThrows) = True"
| "valid_operation s (Insert v (ConstructThrows a)) = (mem s a = None)"
| "valid_operation s (Insert v (Created a)) = (mem s a = None)"
| "valid_operation s (EraseAt pos) =
     (case it_node pos of None \<Rightarrow> True | Some p \<Rightarrow> mem s p \<noteq> None)"
| "valid_operation s (EraseKey k) = True"
| "valid_operation s (EraseRange first last_it) =
     (\<exists>A seg B. iter_nodes s = Some (A @ seg @ B) \<and>
        it_node first = node_or_end (seg @ B) \<and> it_node last_it = node_or_end B)"
| "valid_operation s Clear = True"

subsection \<open>Concrete containers\<close>

text \<open>
  Containers of integers built by the operations themselves, used to run the theorems
  below on concrete inputs. The generator \<open>ex_rng\<close> makes the draws succeed at positions
  0, 3, 4 and 9 only, so that successive nodes get the levels 1, 0, 2, 0, 0, 0, 1.
\<close>

definition ex_rng :: rng_state where
  "ex_rng n = (n = 0 \<or> n = 3 \<or> n = 4 \<or> n = 9)"

definition ex_empty :: "int jump_list" where
  "ex_empty = the (jump_list_new Map.empty 0 0 (<) ex_rng)"

definition ex_odd_ops :: "int operation list" where
  "ex_odd_ops = [Insert 1 (Created 11), Insert 3 (Created 12), Insert 5 (Created 13),
                 Insert 7 (Created 14), Insert 9 (Created 15)]"

definition ex_odd :: "int jump_list" where
  \<comment> \<open>the container \<open>{1, 3, 5, 7, 9}\<close>\<close>
  "ex_odd = the (run ex_empty ex_odd_ops)"

definition ex_mixed_ops :: "int operation list" where
  "ex_mixed_ops =
     [Insert 9 (Created 17), Clear,
      Insert 5 (Created 11), Insert 3 (Created 12), Insert 8 AllocThrows, Insert 8 (Created 13),
      Insert 1 (Created 14), Insert 7 (Created 15), Insert 3 (Created 16),
      EraseKey 5, EraseKey 6, EraseAt \<lparr>it_node = Some 14, it_header = Some 0\<rparr>,
      Insert 4 (Created 11),
      EraseRange \<lparr>it_node = Some 15, it_header = Some 0\<rparr> \<lparr>it_node = Some 13, it_header = Some 0\<rparr>]"

definition ex_mixed :: "int jump_list" where
  "ex_mixed = the (run ex_empty ex_mixed_ops)"

definition ex_123 :: "int jump_list" where
  "ex_123 = the (run ex_empty [Insert 1 (Created 11), Insert 2 (Created 12), Insert 3 (Created 13)])"

definition ex_124 :: "int jump_list" where
  "ex_124 = the (run ex_empty [Insert 4 (Created 11), Insert 2 (Created 12), Insert 1 (Created 13)])"

definition ex_1234 :: "int jump_list" where
  "ex_1234 = the (run ex_empty [Insert 1 (Created 11), Insert 2 (Created 12), Insert 3 (Created 13),
                                Insert 4 (Created 14)])"

text \<open>
  Two containers over a comparator that orders integers by their tens only, so that 1 and 2
  are comparator-equivalent but not equal.
\<close>

definition tens_less :: "int \<Rightarrow> int \<Rightarrow> bool" where
  "tens_less a b = (a div 10 < b div 10)"

definition ex_tens_1 :: "int jump_list" where
  "ex_tens_1 = the (run (the (jump_list_new Map.empty 0 0 tens_less ex_rng)) [Insert 1 (Created 11)])"

definition ex_tens_2 :: "int jump_list" where
  "ex_tens_2 = the (run (the (jump_list_new Map.empty 0 0 tens_less ex_rng)) [Insert 2 (Created 11)])"

text \<open>
  Two containers in one memory: \<open>ex_other\<close> is \<open>{4, 5}\<close> with its header at address 20 and
  its nodes at 21 and 22; \<open>ex_shared\<close> is \<open>{1, 3, 5, 7, 9}\<close>, built afterwards in the same
  memory with its header at address 0. An iterator of \<open>ex_other\<close> is a foreign iterator for
  \<open>ex_shared\<close>. The container \<open>ex_stale\<close> is \<open>{1, 3, 5, 7, 9}\<close> after \<^verbatim>\<open>erase\<close> at the node of 5:
  an iterator to that node is stale, its node has been destroyed.
\<close>

definition ex_other :: "int jump_list" where
  "ex_other = the (run (the (jump_list_new Map.empty 20 0 (<) ex_rng))
                       [Insert 4 (Created 21), Insert 5 (Created 22)])"

definition ex_shared :: "int jump_list" where
  "ex_shared = the (run (the (jump_list_new (mem ex_other) 0 0 (<) ex_rng)) ex_odd_ops)"

definition ex_stale_ops :: "int operation list" where
  "ex_stale_ops = ex_odd_ops @ [EraseAt \<lparr>it_node = Some 13, it_header = Some 0\<rparr>]"

definition ex_stale :: "int jump_list" where
  "ex_stale = the (run ex_empty ex_stale_ops)"

section \<open>The level generator\<close>

lemma randomLevel_loop_step:
  "g 0 \<Longrightarrow> lvl < MAX_LEVEL \<Longrightarrow>
   randomLevel_loop g lvl = randomLevel_loop (\<lambda>n. g (Suc n)) (Suc lvl)"
  by (simp add: randomLevel_loop.simps[of g lvl])

lemma randomLevel_loop_exit:
  "\<not> (g 0 \<and> lvl < MAX_LEVEL) \<Longrightarrow> randomLevel_loop g lvl = (lvl, \<lambda>n. g (Suc n))"
  by (auto simp add: randomLevel_loop.simps[of g lvl])

lemma randomLevel_loop_ge: "lvl \<le> fst (randomLevel_loop g lvl)"
proof (induction g lvl rule: randomLevel_loop.induct)
  case (1 g lvl)
  show ?case
  proof (cases "g 0 \<and> lvl < MAX_LEVEL")
    case True
    with "1.IH" have "Suc lvl \<le> fst (randomLevel_loop (\<lambda>n. g (Suc n)) (Suc lvl))" by blast
    with True show ?thesis by (simp add: randomLevel_loop.simps[of g lvl])
  next
    case False
    then show ?thesis by (simp add: randomLevel_loop_exit)
  qed
qed

lemma randomLevel_loop_le: "lvl \<le> MAX_LEVEL \<Longrightarrow> fst (randomLevel_loop g lvl) \<le> MAX_LEVEL"
proof (induction g lvl rule: randomLevel_loop.induct)
  case (1 g lvl)
  show ?case
  proof (cases "g 0 \<and> lvl < MAX_LEVEL")
    case True
    with "1.IH" have "fst (randomLevel_loop (\<lambda>n. g (Suc n)) (Suc lvl)) \<le> MAX_LEVEL" by simp
    with True show ?thesis by (simp add: randomLevel_loop_step)
  next
    case False
    then show ?thesis using "1.prems" by (simp add: randomLevel_loop_exit)
  qed
qed

lemma randomLevel_loop_draws: "j < fst (randomLevel_loop g lvl) - lvl \<Longrightarrow> g j"
proof (induction g lvl arbitrary: j rule: randomLevel_loop.induct)
  case (1 g lvl)
  show ?case
  proof (cases "g 0 \<and> lvl < MAX_LEVEL")
    case True
    let ?l = "fst (randomLevel_loop (\<lambda>n. g (Suc n)) (Suc lvl))"
    from True have eq: "fst (randomLevel_loop g lvl) = ?l"
      by (simp add: randomLevel_loop.simps[of g lvl])
    show ?thesis
    proof (cases j)
      case 0
      with True show ?thesis by simp
    next
      case (Suc k)
      with "1.prems" eq have "k < ?l - Suc lvl" by simp
      from "1.IH"[OF True this] Suc show ?thesis by simp
    qed
  next
    case False
    then have "fst (randomLevel_loop g lvl) = lvl" by (simp add: randomLevel_loop_exit)
    with "1.prems" show ?thesis by simp
  qed
qed

lemma randomLevel_loop_stop:
  "fst (randomLevel_loop g lvl) < MAX_LEVEL \<Longrightarrow> \<not> g (fst (randomLevel_loop g lvl) - lvl)"
proof (induction g lvl rule: randomLevel_loop.induct)
  case (1 g lvl)
  show ?case
  proof (cases "g 0 \<and> lvl < MAX_LEVEL")
    case True
    let ?l = "fst (randomLevel_loop (\<lambda>n. g (Suc n)) (Suc lvl))"
    from True have eq: "fst (randomLevel_loop g lvl) = ?l"
      by (simp add: randomLevel_loop.simps[of g lvl])
    have ge: "Suc lvl \<le> ?l" by (rule randomLevel_loop_ge)
    from "1.prems" eq have "?l < MAX_LEVEL" by simp
    from "1.IH"[OF True this] have "\<not> g (Suc (?l - Suc lvl))" .
    moreover from ge have "Suc (?l - Suc lvl) = ?l - lvl" by simp
    ultimately show ?thesis using eq by simp
  next
    case False
    then have eq: "fst (randomLevel_loop g lvl) = lvl" by (simp add: randomLevel_loop_exit)
    with "1.prems" False show ?thesis by simp
  qed
qed

lemma randomLevel_loop_rng:
  "snd (randomLevel_loop g lvl) n = g (Suc (n + (fst (randomLevel_loop g lvl) - lvl)))"
proof (induction g lvl rule: randomLevel_loop.induct)
  case (1 g lvl)
  show ?case
  proof (cases "g 0 \<and> lvl < MAX_LEVEL")
    case True
    let ?r = "randomLevel_loop (\<lambda>n. g (Suc n)) (Suc lvl)"
    from True have eq: "randomLevel_loop g lvl = ?r"
      by (simp add: randomLevel_loop.simps[of g lvl])
    have ge: "Suc lvl \<le> fst ?r" by (rule randomLevel_loop_ge)
    from "1.IH"[OF True] have "snd ?r n = g (Suc (Suc (n + (fst ?r - Suc lvl))))" .
    moreover from ge have "Suc (n + (fst ?r - Suc lvl)) = n + (fst ?r - lvl)" by arith
    ultimately have "snd ?r n = g (Suc (n + (fst ?r - lvl)))" by (simp only:)
    then show ?thesis by (simp only: eq)
  next
    case False
    then show ?thesis by (simp add: randomLevel_loop_exit)
  qed
qed

text \<open>
  Claim C9. Every call of \<open>randomLevel\<close> returns, whatever the draws are (the function is
  total: its recursion is proved terminating), with a level between 0 and
  \<open>MAX_LEVEL = 32\<close>. The level is the number of leading successful draws, cut at
  \<open>MAX_LEVEL\<close>: all draws before it succeeded, and below \<open>MAX_LEVEL\<close> the draw at that
  position failed. The generator has then consumed one draw more than the level.
\<close>

theorem randomLevel_contract:
  "MAX_LEVEL = 32 \<and> fst (randomLevel g) \<le> MAX_LEVEL \<and>
   (\<forall>j < fst (randomLevel g). g j) \<and>
   (fst (randomLevel g) < MAX_LEVEL \<longrightarrow> \<not> g (fst (randomLevel g))) \<and>
   (\<forall>n. snd (randomLevel g) n = g (Suc (n + fst (randomLevel g))))"
  using randomLevel_loop_le[of 0 g] randomLevel_loop_draws[of _ g 0]
    randomLevel_loop_stop[of g 0] randomLevel_loop_rng[of g 0]
  by (simp add: randomLevel_def MAX_LEVEL_def)

theorem randomLevel_contract_witness:
  "fst (randomLevel (\<lambda>n. n < 3)) = 3 \<and> fst (randomLevel (\<lambda>n. True)) = 32 \<and>
   fst (randomLevel (\<lambda>n. n \<noteq> 0)) = 0 \<and> fst (randomLevel (\<lambda>n. n < 3)) \<le> MAX_LEVEL \<and>
   \<not> snd (randomLevel (\<lambda>n. n < 3)) 0"
proof -
  have a: "fst (randomLevel (\<lambda>n. n < 3)) = 3" by code_simp
  have b: "fst (randomLevel (\<lambda>n. True)) = 32" by code_simp
  have c: "fst (randomLevel (\<lambda>n. n \<noteq> 0)) = 0" by code_simp
  from randomLevel_contract[of "\<lambda>n. n < 3"] a b c show ?thesis by (simp add: MAX_LEVEL_def)
qed

section \<open>Memory updates and chains\<close>

lemma forward_at_Some_height: "forward_at h a i = Some q \<Longrightarrow> i < height h a"
  by (auto simp: forward_at_def height_def split: option.splits if_splits)

lemma forward_at_defined: "i < height h a \<Longrightarrow> \<exists>q. forward_at h a i = Some q"
  by (auto simp: forward_at_def height_def split: option.splits)

lemma height_pos_alloc: "0 < height h a \<Longrightarrow> \<exists>n. h a = Some n"
  by (auto simp: height_def split: option.splits)

lemma set_forward_defined:
  "i < height h a \<Longrightarrow> \<exists>h'. set_forward h a i p = Some h'"
  by (auto simp: set_forward_def height_def split: option.splits)

lemma set_forward_forward_at:
  "set_forward h a i p = Some h' \<Longrightarrow>
   forward_at h' b j = (if b = a \<and> j = i then Some p else forward_at h b j)"
  by (auto simp: set_forward_def forward_at_def nth_list_update split: option.splits if_splits)

lemma set_forward_height: "set_forward h a i p = Some h' \<Longrightarrow> height h' b = height h b"
  by (auto simp: set_forward_def height_def split: option.splits if_splits)

lemma set_forward_datum: "set_forward h a i p = Some h' \<Longrightarrow> datum h' b = datum h b"
  by (auto simp: set_forward_def datum_def split: option.splits if_splits)

lemma set_forward_alloc: "set_forward h a i p = Some h' \<Longrightarrow> (h' b = None) = (h b = None)"
  by (auto simp: set_forward_def split: option.splits if_splits)

lemma set_backward_defined: "0 < height h a \<Longrightarrow> \<exists>h'. set_backward h a p = Some h'"
  by (auto simp: set_backward_def height_def split: option.splits)

lemma set_backward_forward_at:
  "set_backward h a p = Some h' \<Longrightarrow> forward_at h' b j = forward_at h b j"
  by (auto simp: set_backward_def forward_at_def split: option.splits if_splits)

lemma set_backward_height: "set_backward h a p = Some h' \<Longrightarrow> height h' b = height h b"
  by (auto simp: set_backward_def height_def split: option.splits if_splits)

lemma set_backward_datum: "set_backward h a p = Some h' \<Longrightarrow> datum h' b = datum h b"
  by (auto simp: set_backward_def datum_def split: option.splits if_splits)

lemma set_backward_alloc: "set_backward h a p = Some h' \<Longrightarrow> (h' b = None) = (h b = None)"
  by (auto simp: set_backward_def split: option.splits if_splits)

lemma at_level_cong:
  "(\<And>a. a \<in> set ns \<Longrightarrow> height h' a = height h a) \<Longrightarrow> at_level h' i ns = at_level h i ns"
  unfolding at_level_def by (rule filter_cong) auto

lemma at_level_append: "at_level h i (xs @ ys) = at_level h i xs @ at_level h i ys"
  by (simp add: at_level_def)

lemma at_level_subset: "set (at_level h i ns) \<subseteq> set ns"
  by (auto simp: at_level_def)

lemma at_level_Suc_subset: "set (at_level h (Suc i) ns) \<subseteq> set (at_level h i ns)"
  by (auto simp: at_level_def)

lemma at_level_0: "\<forall>a\<in>set ns. 0 < height h a \<Longrightarrow> at_level h 0 ns = ns"
  by (simp add: at_level_def)

lemma distinct_at_level: "distinct ns \<Longrightarrow> distinct (at_level h i ns)"
  by (simp add: at_level_def)

lemma chain_frame:
  "(\<And>a. a \<in> set xs \<Longrightarrow> forward_at h' a i = forward_at h a i) \<Longrightarrow>
   chain h' i p xs = chain h i p xs"
proof (induction xs arbitrary: p)
  case Nil
  show ?case by simp
next
  case (Cons x xs)
  have fx: "forward_at h' x i = forward_at h x i" using Cons.prems by simp
  have "\<And>q. chain h' i q xs = chain h i q xs" using Cons.IH Cons.prems by simp
  with fx show ?case by (simp split: option.splits)
qed

lemma chain_suffix: "chain h i p (xs @ a # ys) \<Longrightarrow> chain h i (Some a) (a # ys)"
proof (induction xs arbitrary: p)
  case Nil
  then show ?case by simp
next
  case (Cons x xs)
  from Cons.prems obtain q where "chain h i q (xs @ a # ys)"
    by (auto split: option.splits)
  then show ?case by (rule Cons.IH)
qed

lemma chain_next:
  "chain h i p (xs @ u # ys) \<Longrightarrow>
   forward_at h u i = Some (case ys of [] \<Rightarrow> None | y # _ \<Rightarrow> Some y)"
proof -
  assume "chain h i p (xs @ u # ys)"
  then have "chain h i (Some u) (u # ys)" by (rule chain_suffix)
  then show ?thesis by (cases ys) (auto split: option.splits)
qed

lemma chain_unique: "chain h i p xs \<Longrightarrow> chain h i p ys \<Longrightarrow> xs = ys"
proof (induction xs arbitrary: p ys)
  case Nil
  then show ?case by (cases ys) auto
next
  case (Cons x xs)
  then show ?case by (cases ys) (auto split: option.splits)
qed

lemma chain_alloc: "chain h i p xs \<Longrightarrow> a \<in> set xs \<Longrightarrow> i < height h a"
proof (induction xs arbitrary: p)
  case Nil
  then show ?case by simp
next
  case (Cons x xs)
  then show ?case by (auto split: option.splits dest: forward_at_Some_height)
qed

text \<open>Linking a new node \<open>a\<close> behind \<open>u\<close>, and taking the node behind \<open>u\<close> out.\<close>

lemma chain_link:
  assumes "chain h i p (xs @ u # ys)"
    and "distinct (xs @ u # ys)" and "a \<notin> set (xs @ u # ys)"
    and "forward_at h' u i = Some (Some a)"
    and "forward_at h' a i = forward_at h u i"
    and "\<And>b. b \<noteq> u \<Longrightarrow> b \<noteq> a \<Longrightarrow> forward_at h' b i = forward_at h b i"
  shows "chain h' i p (xs @ u # a # ys)"
  using assms(1,2,3)
proof (induction xs arbitrary: p)
  case Nil
  then obtain q where q: "p = Some u" "forward_at h u i = Some q" "chain h i q ys"
    by (auto split: option.splits)
  have "chain h' i q ys = chain h i q ys"
  proof (rule chain_frame)
    fix b assume "b \<in> set ys"
    then have "b \<noteq> u" "b \<noteq> a" using Nil.prems by auto
    then show "forward_at h' b i = forward_at h b i" by (rule assms(6))
  qed
  with q assms(4,5) show ?case by simp
next
  case (Cons x xs)
  then obtain q where q: "p = Some x" "forward_at h x i = Some q" "chain h i q (xs @ u # ys)"
    by (auto split: option.splits)
  have "x \<noteq> u" "x \<noteq> a" using Cons.prems by auto
  then have "forward_at h' x i = forward_at h x i" by (rule assms(6))
  moreover have "chain h' i q (xs @ u # a # ys)"
    using Cons.IH[OF q(3)] Cons.prems by simp
  ultimately show ?case using q by simp
qed

lemma chain_unlink:
  assumes "chain h i p (xs @ u # c # ys)"
    and "distinct (xs @ u # c # ys)"
    and "forward_at h' u i = forward_at h c i"
    and "\<And>b. b \<noteq> u \<Longrightarrow> b \<noteq> c \<Longrightarrow> forward_at h' b i = forward_at h b i"
  shows "chain h' i p (xs @ u # ys)"
  using assms(1,2)
proof (induction xs arbitrary: p)
  case Nil
  then obtain q where q: "p = Some u" "forward_at h u i = Some (Some c)"
      "forward_at h c i = Some q" "chain h i q ys"
    by (auto split: option.splits)
  have "chain h' i q ys = chain h i q ys"
  proof (rule chain_frame)
    fix b assume "b \<in> set ys"
    then have "b \<noteq> u" "b \<noteq> c" using Nil.prems by auto
    then show "forward_at h' b i = forward_at h b i" by (rule assms(4))
  qed
  with q assms(3) show ?case by simp
next
  case (Cons x xs)
  then obtain q where q: "p = Some x" "forward_at h x i = Some q"
      "chain h i q (xs @ u # c # ys)"
    by (auto split: option.splits)
  have "x \<noteq> u" "x \<noteq> c" using Cons.prems by auto
  then have "forward_at h' x i = forward_at h x i" by (rule assms(4))
  moreover have "chain h' i q (xs @ u # ys)"
    using Cons.IH[OF q(3)] Cons.prems by simp
  ultimately show ?case using q by simp
qed

section \<open>The traversal engine on a well-formed container\<close>

lemma forward_at_Some_node:
  "forward_at h a i = Some q \<Longrightarrow> \<exists>n. h a = Some n \<and> datum h a = data n"
  by (auto simp: forward_at_def datum_def split: option.splits if_splits)

lemma walk_level_chain:
  assumes "chain h i (Some cur) (cur # xs @ ys)"
    and "\<forall>a\<in>set xs. precedes (datum h a)"
    and "\<forall>a\<in>set ys. \<not> precedes (datum h a)"
  shows "walk_level h precedes i cur = Some (last (cur # xs))"
  using assms
proof (induction xs arbitrary: cur)
  case Nil
  then obtain q where q: "forward_at h cur i = Some q" "chain h i q ys"
    by (auto split: option.splits)
  show ?case
  proof (cases ys)
    case Nil
    with q have "q = None" by simp
    with q show ?thesis by (simp add: walk_level.simps[of h precedes i cur])
  next
    case (Cons y ys')
    with q obtain r where y: "q = Some y" "forward_at h y i = Some r"
      by (auto split: option.splits)
    from forward_at_Some_node[OF y(2)] obtain n where n: "h y = Some n" "datum h y = data n"
      by blast
    from Nil.prems(3) Cons n have "\<not> precedes (data n)" by auto
    with q y n show ?thesis by (simp add: walk_level.simps[of h precedes i cur])
  qed
next
  case (Cons x xs)
  then obtain q where q: "forward_at h cur i = Some q" "chain h i q (x # xs @ ys)"
    by (auto split: option.splits)
  then obtain r where x: "q = Some x" "forward_at h x i = Some r"
    by (auto split: option.splits)
  from forward_at_Some_node[OF x(2)] obtain n where n: "h x = Some n" "datum h x = data n"
    by blast
  from Cons.prems(2) n have px: "precedes (data n)" by auto
  from q x have "chain h i (Some x) (x # xs @ ys)" by simp
  from Cons.IH[OF this] Cons.prems have "walk_level h precedes i x = Some (last (x # xs))"
    by simp
  with q x n px show ?case by (simp add: walk_level.simps[of h precedes i cur])
qed

text \<open>
  The situation of every search: the nodes \<open>ns = pre @ post\<close> where the payloads of
  \<open>pre\<close> satisfy the loop condition and those of \<open>post\<close> do not.
\<close>

lemma walk_level_inv:
  assumes inv: "jl_inv s (pre @ post)"
    and pre: "\<forall>a\<in>set pre. precedes (datum (mem s) a)"
    and post: "\<forall>a\<in>set post. \<not> precedes (datum (mem s) a)"
    and i: "i \<le> MAX_LEVEL"
    and cur: "cur \<in> set (header s # at_level (mem s) i pre)"
  shows "walk_level (mem s) precedes i cur = Some (trail (mem s) (header s) i pre)"
proof -
  let ?h = "mem s"
  from split_list[OF cur] obtain A B where AB: "header s # at_level ?h i pre = A @ cur # B"
    by blast
  have "header s # at_level ?h i (pre @ post)
        = (header s # at_level ?h i pre) @ at_level ?h i post"
    by (simp add: at_level_append)
  also have "\<dots> = (A @ cur # B) @ at_level ?h i post" by (simp only: AB)
  also have "\<dots> = A @ cur # (B @ at_level ?h i post)" by simp
  finally have eq: "header s # at_level ?h i (pre @ post) = A @ cur # (B @ at_level ?h i post)" .
  from inv i have "chain ?h i (Some (header s)) (header s # at_level ?h i (pre @ post))"
    unfolding jl_inv_def by blast
  then have "chain ?h i (Some (header s)) (A @ cur # (B @ at_level ?h i post))"
    by (simp only: eq)
  then have c: "chain ?h i (Some cur) (cur # B @ at_level ?h i post)"
    by (rule chain_suffix)
  have "set B \<subseteq> set (at_level ?h i pre)"
  proof -
    have "set B \<subseteq> set (A @ cur # B)" by auto
    also have "\<dots> = set (header s # at_level ?h i pre)" using AB by simp
    finally have "set B \<subseteq> insert (header s) (set (at_level ?h i pre))" by simp
    moreover have "header s \<notin> set B"
    proof
      assume hb: "header s \<in> set B"
      have "distinct (header s # at_level ?h i pre)"
        using inv at_level_subset[of ?h i pre]
        by (auto simp: jl_inv_def distinct_at_level)
      then have d: "distinct (A @ cur # B)" using AB by simp
      show False
      proof (cases A)
        case Nil
        with AB have "cur = header s" by simp
        with d hb show False by simp
      next
        case (Cons a A')
        with AB have "a = header s" by simp
        with d Cons hb show False by auto
      qed
    qed
    ultimately show ?thesis by auto
  qed
  then have pB: "\<forall>a\<in>set B. precedes (datum ?h a)"
    using pre at_level_subset[of ?h i pre] by blast
  have pP: "\<forall>a\<in>set (at_level ?h i post). \<not> precedes (datum ?h a)"
    using post at_level_subset[of ?h i post] by blast
  from walk_level_chain[OF c pB pP]
  have "walk_level ?h precedes i cur = Some (last (cur # B))" .
  moreover have "last (cur # B) = last (A @ cur # B)" by simp
  ultimately show ?thesis unfolding trail_def AB by simp
qed

lemma trail_in_level: "trail h hdr i pre \<in> set (hdr # at_level h i pre)"
  unfolding trail_def by (rule last_in_set) simp

lemma trail_Suc_in_level: "trail h hdr (Suc i) pre \<in> set (hdr # at_level h i pre)"
  using trail_in_level[of h hdr "Suc i" pre] at_level_Suc_subset[of h i pre] by auto

lemma search_inv:
  assumes inv: "jl_inv s (pre @ post)"
    and pre: "\<forall>a\<in>set pre. precedes (datum (mem s) a)"
    and post: "\<forall>a\<in>set post. \<not> precedes (datum (mem s) a)"
  shows "i \<le> MAX_LEVEL \<Longrightarrow> cur \<in> set (header s # at_level (mem s) i pre) \<Longrightarrow>
         search (mem s) precedes i cur = Some (trail (mem s) (header s) 0 pre)"
proof (induction i arbitrary: cur)
  case 0
  then show ?case using walk_level_inv[OF inv pre post] by simp
next
  case (Suc i)
  have w: "walk_level (mem s) precedes (Suc i) cur = Some (trail (mem s) (header s) (Suc i) pre)"
    using walk_level_inv[OF inv pre post Suc.prems] .
  have "search (mem s) precedes i (trail (mem s) (header s) (Suc i) pre)
        = Some (trail (mem s) (header s) 0 pre)"
    using Suc.IH[OF _ trail_Suc_in_level] Suc.prems by simp
  with w show ?case by simp
qed

lemma trail_update_step:
  "Suc i < length upd \<Longrightarrow>
   trail_update h hdr pre i (upd[Suc i := Some (trail h hdr (Suc i) pre)])
   = trail_update h hdr pre (Suc i) upd"
  unfolding trail_update_def
  by (rule nth_equalityI) (auto simp: nth_list_update le_Suc_eq)

lemma search_update_inv:
  assumes inv: "jl_inv s (pre @ post)"
    and pre: "\<forall>a\<in>set pre. precedes (datum (mem s) a)"
    and post: "\<forall>a\<in>set post. \<not> precedes (datum (mem s) a)"
  shows "i \<le> MAX_LEVEL \<Longrightarrow> cur \<in> set (header s # at_level (mem s) i pre) \<Longrightarrow>
         i < length upd \<Longrightarrow>
         search_update (mem s) precedes i cur upd
         = Some (trail (mem s) (header s) 0 pre, trail_update (mem s) (header s) pre i upd)"
proof (induction i arbitrary: cur upd)
  case 0
  have "upd[0 := Some (trail (mem s) (header s) 0 pre)] = trail_update (mem s) (header s) pre 0 upd"
    unfolding trail_update_def by (rule nth_equalityI) (auto simp: nth_list_update)
  then show ?case using walk_level_inv[OF inv pre post "0.prems"(1,2)] "0.prems"(3) by simp
next
  case (Suc i)
  let ?t = "trail (mem s) (header s) (Suc i) pre"
  have w: "walk_level (mem s) precedes (Suc i) cur = Some ?t"
    using walk_level_inv[OF inv pre post Suc.prems(1,2)] .
  have "search_update (mem s) precedes i ?t (upd[Suc i := Some ?t])
        = Some (trail (mem s) (header s) 0 pre,
                trail_update (mem s) (header s) pre i (upd[Suc i := Some ?t]))"
    using Suc.IH[OF _ trail_Suc_in_level] Suc.prems by simp
  with w Suc.prems(3) show ?case by (simp add: trail_update_step)
qed

section \<open>Where a search ends\<close>

lemma sorted_dropWhile_none:
  assumes "sorted_wrt c (map d ns)"
    and closed: "\<And>x y. c x y \<Longrightarrow> P y \<Longrightarrow> P x"
  shows "\<forall>a\<in>set (dropWhile (\<lambda>a. P (d a)) ns). \<not> P (d a)"
proof (cases "dropWhile (\<lambda>a. P (d a)) ns")
  case Nil
  then show ?thesis by (simp only: list.set ball_empty)
next
  case (Cons c0 rest)
  have n0: "\<not> P (d c0)" using hd_dropWhile[of "\<lambda>a. P (d a)" ns] Cons by auto
  have "ns = takeWhile (\<lambda>a. P (d a)) ns @ c0 # rest"
    using takeWhile_dropWhile_id[of "\<lambda>a. P (d a)" ns] Cons by simp
  then have "sorted_wrt c (map d (takeWhile (\<lambda>a. P (d a)) ns @ c0 # rest))"
    using assms(1) by simp
  then have "\<forall>a\<in>set rest. c (d c0) (d a)"
    by (simp add: sorted_wrt_append)
  with n0 closed have "\<forall>a\<in>set rest. \<not> P (d a)" by blast
  with n0 Cons show ?thesis by simp
qed

lemma takeWhile_all: "\<forall>a\<in>set (takeWhile Q ns). Q a"
  by (auto dest: set_takeWhileD)

lemma find_dropWhile:
  "List.find Q xs = (case dropWhile (\<lambda>a. \<not> Q a) xs of [] \<Rightarrow> None | x # _ \<Rightarrow> Some x)"
  by (induction xs) auto

lemma forward_trail_0:
  assumes inv: "jl_inv s (pre @ post)"
  shows "forward_at (mem s) (trail (mem s) (header s) 0 pre) 0
         = Some (case post of [] \<Rightarrow> None | c # _ \<Rightarrow> Some c)"
proof -
  let ?h = "mem s"
  have l0: "at_level ?h 0 (pre @ post) = pre @ post" and lp: "at_level ?h 0 pre = pre"
    using inv by (auto simp: jl_inv_def at_level_def)
  have "chain ?h 0 (Some (header s)) (header s # at_level ?h 0 (pre @ post))"
    using inv unfolding jl_inv_def by blast
  then have "chain ?h 0 (Some (header s)) ((header s # pre) @ post)" by (simp only: l0 append_Cons)
  moreover have "header s # pre = butlast (header s # pre) @ [last (header s # pre)]"
    by (rule append_butlast_last_id[symmetric]) simp
  ultimately have "chain ?h 0 (Some (header s))
      (butlast (header s # pre) @ last (header s # pre) # post)"
    by (metis append.assoc append_Cons append_Nil)
  from chain_next[OF this] show ?thesis by (simp add: trail_def lp)
qed

text \<open>The two search modes: the nodes that satisfy the loop condition form a prefix.\<close>

lemma lower_split:
  assumes inv: "jl_inv s ns" and swo: "strict_weak_order (comp_m s)"
  shows "\<forall>a\<in>set (takeWhile (\<lambda>a. comp_m s (datum (mem s) a) k) ns). comp_m s (datum (mem s) a) k"
    and "\<forall>a\<in>set (dropWhile (\<lambda>a. comp_m s (datum (mem s) a) k) ns). \<not> comp_m s (datum (mem s) a) k"
proof -
  show "\<forall>a\<in>set (takeWhile (\<lambda>a. comp_m s (datum (mem s) a) k) ns). comp_m s (datum (mem s) a) k"
    by (rule takeWhile_all)
  have so: "sorted_wrt (comp_m s) (map (datum (mem s)) ns)" using inv by (simp add: jl_inv_def)
  have tr: "\<And>x y. comp_m s x y \<Longrightarrow> comp_m s y k \<Longrightarrow> comp_m s x k"
    using swo unfolding strict_weak_order_def by blast
  show "\<forall>a\<in>set (dropWhile (\<lambda>a. comp_m s (datum (mem s) a) k) ns). \<not> comp_m s (datum (mem s) a) k"
    by (rule sorted_dropWhile_none[OF so, where P = "\<lambda>x. comp_m s x k"]) (rule tr)
qed

lemma upper_split:
  assumes inv: "jl_inv s ns" and swo: "strict_weak_order (comp_m s)"
  shows "\<forall>a\<in>set (takeWhile (\<lambda>a. \<not> comp_m s k (datum (mem s) a)) ns). \<not> comp_m s k (datum (mem s) a)"
    and "\<forall>a\<in>set (dropWhile (\<lambda>a. \<not> comp_m s k (datum (mem s) a)) ns). \<not> \<not> comp_m s k (datum (mem s) a)"
proof -
  show "\<forall>a\<in>set (takeWhile (\<lambda>a. \<not> comp_m s k (datum (mem s) a)) ns). \<not> comp_m s k (datum (mem s) a)"
    by (rule takeWhile_all)
  have so: "sorted_wrt (comp_m s) (map (datum (mem s)) ns)" using inv by (simp add: jl_inv_def)
  have tr: "\<And>x y. comp_m s x y \<Longrightarrow> \<not> comp_m s k y \<Longrightarrow> \<not> comp_m s k x"
    using swo unfolding strict_weak_order_def by blast
  show "\<forall>a\<in>set (dropWhile (\<lambda>a. \<not> comp_m s k (datum (mem s) a)) ns). \<not> \<not> comp_m s k (datum (mem s) a)"
    by (rule sorted_dropWhile_none[OF so, where P = "\<lambda>x. \<not> comp_m s k x"]) (rule tr)
qed

lemma header_in_level: "header s \<in> set (header s # at_level (mem s) i pre)"
  by simp

lemma search_lower:
  assumes inv: "jl_inv s ns" and swo: "strict_weak_order (comp_m s)"
  shows "\<exists>cur. search (mem s) (\<lambda>x. comp_m s x k) (level s) (header s) = Some cur \<and>
           forward_at (mem s) cur 0
           = Some (List.find (\<lambda>a. \<not> comp_m s (datum (mem s) a) k) ns)"
proof -
  let ?P = "\<lambda>a. comp_m s (datum (mem s) a) k"
  let ?pre = "takeWhile ?P ns" and ?post = "dropWhile ?P ns"
  have inv': "jl_inv s (?pre @ ?post)" using inv by simp
  have lv: "level s \<le> MAX_LEVEL" using inv by (simp add: jl_inv_def)
  have "search (mem s) (\<lambda>x. comp_m s x k) (level s) (header s)
        = Some (trail (mem s) (header s) 0 ?pre)"
    by (rule search_inv[OF inv' lower_split[OF inv swo] lv header_in_level])
  moreover have "forward_at (mem s) (trail (mem s) (header s) 0 ?pre) 0
        = Some (List.find (\<lambda>a. \<not> ?P a) ns)"
    using forward_trail_0[OF inv'] by (simp add: find_dropWhile)
  ultimately show ?thesis by blast
qed

lemma search_upper:
  assumes inv: "jl_inv s ns" and swo: "strict_weak_order (comp_m s)"
  shows "\<exists>cur. search (mem s) (\<lambda>x. \<not> comp_m s k x) (level s) (header s) = Some cur \<and>
           forward_at (mem s) cur 0
           = Some (List.find (\<lambda>a. comp_m s k (datum (mem s) a)) ns)"
proof -
  let ?P = "\<lambda>a. \<not> comp_m s k (datum (mem s) a)"
  let ?pre = "takeWhile ?P ns" and ?post = "dropWhile ?P ns"
  have inv': "jl_inv s (?pre @ ?post)" using inv by simp
  have lv: "level s \<le> MAX_LEVEL" using inv by (simp add: jl_inv_def)
  have "search (mem s) (\<lambda>x. \<not> comp_m s k x) (level s) (header s)
        = Some (trail (mem s) (header s) 0 ?pre)"
    by (rule search_inv[OF inv' upper_split[OF inv swo] lv header_in_level])
  moreover have "forward_at (mem s) (trail (mem s) (header s) 0 ?pre) 0
        = Some (List.find (\<lambda>a. \<not> ?P a) ns)"
    using forward_trail_0[OF inv'] by (simp add: find_dropWhile)
  ultimately show ?thesis by simp
qed

section \<open>Counted loops\<close>

lemma for_loop_upt_rule:
  assumes "I j x" and "j \<le> n"
    and step: "\<And>i y. j \<le> i \<Longrightarrow> i < n \<Longrightarrow> I i y \<Longrightarrow> \<exists>y'. body i y = Some y' \<and> I (Suc i) y'"
  shows "\<exists>x'. for_loop [j ..< n] body x = Some x' \<and> I n x'"
  using assms
proof (induction "n - j" arbitrary: j x)
  case 0
  then have "j = n" by simp
  with "0.prems"(1) show ?case by simp
next
  case (Suc k)
  then have jn: "j < n" by simp
  from Suc.prems(3)[OF le_refl jn Suc.prems(1)]
  obtain y where y: "body j x = Some y" "I (Suc j) y" by blast
  have "\<exists>x'. for_loop [Suc j ..< n] body y = Some x' \<and> I n x'"
  proof (rule Suc.hyps(1))
    show "k = n - Suc j" using Suc.hyps(2) by simp
    show "I (Suc j) y" by (rule y(2))
    show "Suc j \<le> n" using jn by simp
    show "\<And>i y. Suc j \<le> i \<Longrightarrow> i < n \<Longrightarrow> I i y \<Longrightarrow> \<exists>y'. body i y = Some y' \<and> I (Suc i) y'"
      using Suc.prems(3) by simp
  qed
  with y(1) jn show ?case by (simp add: upt_conv_Cons)
qed

section \<open>insert\<close>

lemma raise_trail_spec:
  assumes len: "length upd = MAX_LEVEL + 1" and nl: "newLevel \<le> MAX_LEVEL"
    and low: "\<forall>j \<le> lvl. upd ! j = Some (t j)"
    and high: "\<forall>j. lvl < j \<and> j \<le> MAX_LEVEL \<longrightarrow> t j = hdr"
  shows "\<exists>upd'. raise_trail upd hdr lvl newLevel = Some upd' \<and> length upd' = MAX_LEVEL + 1 \<and>
           (\<forall>j. j \<le> lvl \<or> j \<le> newLevel \<longrightarrow> upd' ! j = Some (t j))"
proof (cases "newLevel > lvl")
  case False
  then show ?thesis using len low by (auto simp: raise_trail_def)
next
  case True
  let ?I = "\<lambda>i u. length u = MAX_LEVEL + 1 \<and> (\<forall>j < i. u ! j = Some (t j))"
  have "\<exists>u'. for_loop [lvl + 1 ..< Suc newLevel] (\<lambda>i u. put_index u i (Some hdr)) upd = Some u'
             \<and> ?I (Suc newLevel) u'"
  proof (rule for_loop_upt_rule[where I = ?I])
    show "?I (lvl + 1) upd" using len low by (auto simp: less_Suc_eq_le)
    show "lvl + 1 \<le> Suc newLevel" using True by simp
  next
    fix i u assume i: "lvl + 1 \<le> i" "i < Suc newLevel" and I: "?I i u"
    have "i < length u" using i nl I by simp
    moreover have "t i = hdr" using high i nl by simp
    ultimately show "\<exists>y'. put_index u i (Some hdr) = Some y' \<and> ?I (Suc i) y'"
      using I by (auto simp: put_index_def nth_list_update less_Suc_eq)
  qed
  then show ?thesis using True by (auto simp: raise_trail_def less_Suc_eq_le)
qed

lemma splice_step:
  assumes I: "splice_inv h h1 hdr a pre post j m"
    and j: "j \<le> newLevel" "newLevel \<le> MAX_LEVEL"
    and upd: "at_index update j = Some (Some (trail h hdr j pre))"
    and ha: "height h1 a = newLevel + 1"
    and dist: "distinct (hdr # pre @ post)" and fresh: "a \<notin> set (hdr # pre @ post)"
  shows "\<exists>m'. splice update a j m = Some m' \<and> splice_inv h h1 hdr a pre post (Suc j) m'"
proof -
  let ?u = "trail h hdr j pre"
  let ?L = "\<lambda>i xs. at_level h i xs"
  have jM: "j \<le> MAX_LEVEL" using j by simp
  have same: "\<And>b. height m b = height h1 b" "\<And>b. datum m b = datum h1 b"
    using I by (auto simp: splice_inv_def)
  have chains: "\<And>i. i \<le> MAX_LEVEL \<Longrightarrow>
      chain m i (Some hdr) (hdr # ?L i pre @ (if i < j then [a] else []) @ ?L i post)"
    using I by (auto simp: splice_inv_def)
  define X where "X = butlast (hdr # ?L j pre)"
  have Xu: "hdr # ?L j pre = X @ [?u]"
    unfolding X_def trail_def by (rule append_butlast_last_id[symmetric]) simp
  have "chain m j (Some hdr) (hdr # ?L j pre @ [] @ ?L j post)"
    using chains[OF jM] by simp
  then have "chain m j (Some hdr) ((hdr # ?L j pre) @ ?L j post)" by simp
  then have cj: "chain m j (Some hdr) (X @ ?u # ?L j post)" by (simp only: Xu) simp
  from chain_next[OF cj] obtain f where f: "forward_at m ?u j = Some f" by blast
  have "j < height m a" using same(1)[of a] ha j by simp
  from set_forward_defined[OF this] obtain m1 where m1: "set_forward m a j f = Some m1" by blast
  have "j < height m1 ?u"
    using forward_at_Some_height[OF f] set_forward_height[OF m1] by simp
  from set_forward_defined[OF this] obtain m2 where m2: "set_forward m1 ?u j (Some a) = Some m2"
    by blast
  have sub: "set (hdr # ?L j pre @ ?L j post) \<subseteq> set (hdr # pre @ post)"
    using at_level_subset[of h j pre] at_level_subset[of h j post] by auto
  have "?u \<in> set (hdr # ?L j pre)" by (rule trail_in_level)
  with sub fresh have ua: "?u \<noteq> a" by auto
  have fw2: "\<And>b i. forward_at m2 b i =
      (if b = ?u \<and> i = j then Some (Some a) else if b = a \<and> i = j then Some f
       else forward_at m b i)"
    using set_forward_forward_at[OF m2] set_forward_forward_at[OF m1] ua by auto
  have spl: "splice update a j m = Some m2"
    using upd f m1 m2 by (simp add: splice_def)
  have dj: "distinct (X @ ?u # ?L j post)"
  proof -
    have "distinct (hdr # ?L j (pre @ post))"
      using dist at_level_subset[of h j "pre @ post"] by (auto simp: distinct_at_level)
    then have "distinct ((hdr # ?L j pre) @ ?L j post)" by (simp add: at_level_append)
    then show ?thesis by (simp only: Xu) simp
  qed
  have aj: "a \<notin> set (X @ ?u # ?L j post)"
  proof -
    have "set (X @ ?u # ?L j post) = set ((X @ [?u]) @ ?L j post)" by simp
    also have "\<dots> = set ((hdr # ?L j pre) @ ?L j post)" by (simp only: Xu)
    finally show ?thesis using sub fresh by auto
  qed
  have "chain m2 j (Some hdr) (X @ ?u # a # ?L j post)"
  proof (rule chain_link[OF cj dj aj])
    show "forward_at m2 ?u j = Some (Some a)" by (simp add: fw2)
    show "forward_at m2 a j = forward_at m ?u j" using ua by (simp add: fw2 f)
    show "\<And>b. b \<noteq> ?u \<Longrightarrow> b \<noteq> a \<Longrightarrow> forward_at m2 b j = forward_at m b j"
      by (simp add: fw2)
  qed
  then have "chain m2 j (Some hdr) ((X @ [?u]) @ a # ?L j post)" by simp
  then have newj: "chain m2 j (Some hdr) (hdr # ?L j pre @ [a] @ ?L j post)"
    by (simp only: Xu[symmetric]) simp
  have "splice_inv h h1 hdr a pre post (Suc j) m2"
    unfolding splice_inv_def
  proof (intro conjI allI impI)
    fix b show "height m2 b = height h1 b"
      using set_forward_height[OF m2] set_forward_height[OF m1] same(1) by simp
    show "datum m2 b = datum h1 b"
      using set_forward_datum[OF m2] set_forward_datum[OF m1] same(2) by simp
  next
    fix i assume iM: "i \<le> MAX_LEVEL"
    show "chain m2 i (Some hdr)
            (hdr # ?L i pre @ (if i < Suc j then [a] else []) @ ?L i post)"
    proof (cases "i = j")
      case True
      with newj show ?thesis by simp
    next
      case False
      then have "(i < Suc j) = (i < j)" by auto
      moreover have "chain m2 i (Some hdr) (hdr # ?L i pre @ (if i < j then [a] else []) @ ?L i post)
          = chain m i (Some hdr) (hdr # ?L i pre @ (if i < j then [a] else []) @ ?L i post)"
        by (rule chain_frame) (simp add: fw2 False)
      ultimately show ?thesis using chains[OF iM] by simp
    qed
  qed
  with spl show ?thesis by blast
qed
lemma splice_loop:
  assumes I: "splice_inv h h1 hdr a pre post 0 h1"
    and nl: "newLevel \<le> MAX_LEVEL"
    and upd: "\<forall>j \<le> newLevel. at_index update j = Some (Some (trail h hdr j pre))"
    and ha: "height h1 a = newLevel + 1"
    and dist: "distinct (hdr # pre @ post)" and fresh: "a \<notin> set (hdr # pre @ post)"
  shows "\<exists>m. for_loop [0 ..< Suc newLevel] (splice update a) h1 = Some m \<and>
             splice_inv h h1 hdr a pre post (Suc newLevel) m"
proof (rule for_loop_upt_rule[where I = "splice_inv h h1 hdr a pre post"])
  show "splice_inv h h1 hdr a pre post 0 h1" by (rule I)
  show "0 \<le> Suc newLevel" by simp
next
  fix i y assume i: "0 \<le> i" "i < Suc newLevel" and Iy: "splice_inv h h1 hdr a pre post i y"
  have il: "i \<le> newLevel" using i by simp
  show "\<exists>y'. splice update a i y = Some y' \<and> splice_inv h h1 hdr a pre post (Suc i) y'"
    by (rule splice_step[OF Iy il nl _ ha dist fresh]) (use upd il in simp)
qed

lemma link_backward_frame:
  assumes "0 < height h a" and "0 < height h hdr"
    and "\<And>nx. forward_at h a 0 = Some (Some nx) \<Longrightarrow> 0 < height h nx"
  shows "\<exists>h'. link_backward h hdr a u0 = Some h' \<and>
           (\<forall>b i. forward_at h' b i = forward_at h b i) \<and>
           (\<forall>b. height h' b = height h b \<and> datum h' b = datum h b)"
proof -
  from set_backward_defined[OF assms(1)] obtain h1 where h1: "set_backward h a u0 = Some h1"
    by blast
  have fw1: "\<And>b i. forward_at h1 b i = forward_at h b i"
    and hd1: "\<And>b. height h1 b = height h b" "\<And>b. datum h1 b = datum h b"
    using set_backward_forward_at[OF h1] set_backward_height[OF h1] set_backward_datum[OF h1]
    by auto
  from forward_at_defined[OF assms(1)] obtain nf where nf: "forward_at h a 0 = Some nf" by blast
  show ?thesis
  proof (cases nf)
    case None
    from set_backward_defined[of h1 hdr] assms(2) hd1(1)
    obtain h2 where h2: "set_backward h1 hdr (Some a) = Some h2" by auto
    have "link_backward h hdr a u0 = Some h2"
      using h1 nf None h2 fw1 by (simp add: link_backward_def)
    then show ?thesis
      using set_backward_forward_at[OF h2] set_backward_height[OF h2] set_backward_datum[OF h2]
        fw1 hd1 by simp
  next
    case (Some nx)
    with assms(3) nf have "0 < height h1 nx" by (simp add: hd1)
    from set_backward_defined[OF this]
    obtain h2 where h2: "set_backward h1 nx (Some a) = Some h2" by blast
    have "link_backward h hdr a u0 = Some h2"
      using h1 nf Some h2 fw1 by (simp add: link_backward_def)
    then show ?thesis
      using set_backward_forward_at[OF h2] set_backward_height[OF h2] set_backward_datum[OF h2]
        fw1 hd1 by simp
  qed
qed

lemma chain_header_none:
  "chain h i (Some hdr) (hdr # L) \<Longrightarrow> (forward_at h hdr i = Some None) = (L = [])"
  by (cases L) (auto split: option.splits)

lemma above_level_empty:
  assumes "jl_inv s ns" and "level s < i" and "i \<le> MAX_LEVEL"
  shows "at_level (mem s) i ns = []"
proof -
  from assms have c: "chain (mem s) i (Some (header s)) (header s # at_level (mem s) i ns)"
    and n: "forward_at (mem s) (header s) i = Some None"
    unfolding jl_inv_def by blast+
  from chain_header_none[OF c] n show ?thesis by simp
qed

lemma trail_above_level:
  assumes "jl_inv s (pre @ post)" and "level s < i" and "i \<le> MAX_LEVEL"
  shows "trail (mem s) (header s) i pre = header s"
  using above_level_empty[OF assms] by (simp add: trail_def at_level_append)

lemma trail_update_replicate:
  "length (trail_update h hdr pre i upd) = length upd"
  "j \<le> i \<Longrightarrow> j < length upd \<Longrightarrow> trail_update h hdr pre i upd ! j = Some (trail h hdr j pre)"
  by (auto simp: trail_update_def)

lemma height_fun_upd:
  "height (h(a \<mapsto> n)) b = (if b = a then length (forward n) else height h b)"
  by (simp add: height_def)

lemma datum_fun_upd: "datum (h(a \<mapsto> n)) b = (if b = a then data n else datum h b)"
  by (simp add: datum_def)

lemma forward_at_fun_upd_other: "b \<noteq> a \<Longrightarrow> forward_at (h(a \<mapsto> n)) b i = forward_at h b i"
  by (simp add: forward_at_def)

lemma randomLevel_le: "randomLevel g = (nl, g') \<Longrightarrow> nl \<le> MAX_LEVEL"
  using randomLevel_loop_le[of 0 g] by (simp add: randomLevel_def)
lemma insert_new_created:
  assumes inv: "jl_inv s (pre @ post)"
    and pre: "\<forall>b\<in>set pre. comp_m s (datum (mem s) b) v"
    and post: "\<forall>b\<in>set post. comp_m s v (datum (mem s) b)"
    and len: "length upd = MAX_LEVEL + 1"
    and upd: "\<forall>j \<le> level s. upd ! j = Some (trail (mem s) (header s) j pre)"
    and rl: "randomLevel (rng s) = (nl, g)"
    and fresh: "mem s a = None"
  shows "\<exists>s'. insert_new s v (Created a) upd
            = Some (Inr (\<lparr>it_node = Some a, it_header = Some (header s)\<rparr>, True), s') \<and>
          jl_inv s' (pre @ a # post) \<and> datum (mem s') a = v \<and>
          (\<forall>b. b \<noteq> a \<longrightarrow> datum (mem s') b = datum (mem s) b) \<and>
          (\<forall>b. b \<noteq> a \<longrightarrow> height (mem s') b = height (mem s) b) \<and>
          height (mem s') a = nl + 1 \<and>
          size_m s' = size_m s + 1 \<and> header s' = header s \<and> comp_m s' = comp_m s \<and>
          level s' = max (level s) nl \<and> rng s' = g"
proof -
  let ?h = "mem s" and ?hdr = "header s"
  let ?t = "\<lambda>j. trail ?h ?hdr j pre"
  let ?node = "\<lparr>data = v, forward = replicate (nl + 1) None, backward = None\<rparr>"
  define h1 where "h1 = ?h(a \<mapsto> ?node)"
  have h1_height: "\<And>b. height h1 b = (if b = a then nl + 1 else height ?h b)"
    by (simp add: h1_def height_fun_upd)
  have h1_datum: "\<And>b. datum h1 b = (if b = a then v else datum ?h b)"
    by (simp add: h1_def datum_fun_upd)
  have h1_forward: "\<And>b i. b \<noteq> a \<Longrightarrow> forward_at h1 b i = forward_at ?h b i"
    by (simp add: h1_def forward_at_fun_upd_other)
  have nlM: "nl \<le> MAX_LEVEL" using rl by (rule randomLevel_le)
  have invd: "distinct (pre @ post)" "?hdr \<notin> set (pre @ post)"
    "height ?h ?hdr = MAX_LEVEL + 1"
    "\<forall>b\<in>set (pre @ post). 0 < height ?h b \<and> height ?h b \<le> MAX_LEVEL + 1"
    "level s \<le> MAX_LEVEL"
    "sorted_wrt (comp_m s) (map (datum ?h) (pre @ post))"
    "size_m s = of_nat (length (pre @ post))"
    using inv unfolding jl_inv_def by blast+
  have chains: "\<And>i. i \<le> MAX_LEVEL \<Longrightarrow> chain ?h i (Some ?hdr) (?hdr # at_level ?h i (pre @ post))"
    using inv unfolding jl_inv_def by blast
  have a_notin: "a \<notin> set (?hdr # pre @ post)"
  proof
    assume "a \<in> set (?hdr # pre @ post)"
    then have "0 < height ?h a" using invd(3,4) by auto
    with fresh show False by (simp add: height_def)
  qed
  have dist: "distinct (?hdr # pre @ post)" using invd(1,2) by simp
  \<comment> \<open>the trail raised to the new level\<close>
  have "\<exists>upd'. raise_trail upd ?hdr (level s) nl = Some upd' \<and> length upd' = MAX_LEVEL + 1 \<and>
           (\<forall>j. j \<le> level s \<or> j \<le> nl \<longrightarrow> upd' ! j = Some (?t j))"
  proof (rule raise_trail_spec[OF len nlM upd])
    show "\<forall>j. level s < j \<and> j \<le> MAX_LEVEL \<longrightarrow> ?t j = ?hdr"
      using trail_above_level[OF inv] by blast
  qed
  then obtain upd' where u': "raise_trail upd ?hdr (level s) nl = Some upd'"
    "length upd' = MAX_LEVEL + 1" "\<forall>j. j \<le> level s \<or> j \<le> nl \<longrightarrow> upd' ! j = Some (?t j)"
    by blast
  have at': "\<forall>j \<le> nl. at_index upd' j = Some (Some (?t j))"
    using u'(2,3) nlM by (auto simp: at_index_def)
  \<comment> \<open>the node is created\<close>
  have cn: "createNode ?h v nl (Created a) = Some (Inr a, h1)"
    using fresh by (simp add: createNode_def h1_def)
  have h1a: "height h1 a = nl + 1" by (simp add: h1_height)
  have I0: "splice_inv ?h h1 ?hdr a pre post 0 h1"
    unfolding splice_inv_def
  proof (intro conjI allI impI)
    fix i assume iM: "i \<le> MAX_LEVEL"
    have "chain h1 i (Some ?hdr) (?hdr # at_level ?h i (pre @ post))
          = chain ?h i (Some ?hdr) (?hdr # at_level ?h i (pre @ post))"
    proof (rule chain_frame)
      fix b assume "b \<in> set (?hdr # at_level ?h i (pre @ post))"
      then have "b \<in> set (?hdr # pre @ post)" using at_level_subset[of ?h i "pre @ post"] by auto
      with a_notin have "b \<noteq> a" by auto
      then show "forward_at h1 b i = forward_at ?h b i" by (rule h1_forward)
    qed
    with chains[OF iM]
    show "chain h1 i (Some ?hdr)
            (?hdr # at_level ?h i pre @ (if i < 0 then [a] else []) @ at_level ?h i post)"
      by (simp add: at_level_append)
  qed simp_all
  from splice_loop[OF I0 nlM at' h1a dist a_notin]
  obtain h2 where h2: "for_loop [0 ..< Suc nl] (splice upd' a) h1 = Some h2"
    "splice_inv ?h h1 ?hdr a pre post (Suc nl) h2" by blast
  have same2: "\<And>b. height h2 b = height h1 b" "\<And>b. datum h2 b = datum h1 b"
    using h2(2) by (auto simp: splice_inv_def)
  have chains2: "\<And>i. i \<le> MAX_LEVEL \<Longrightarrow> chain h2 i (Some ?hdr)
      (?hdr # at_level ?h i pre @ (if i < Suc nl then [a] else []) @ at_level ?h i post)"
    using h2(2) by (auto simp: splice_inv_def)
  \<comment> \<open>the backward links\<close>
  have "\<exists>h'. link_backward h2 ?hdr a (upd' ! 0) = Some h' \<and>
           (\<forall>b i. forward_at h' b i = forward_at h2 b i) \<and>
           (\<forall>b. height h' b = height h2 b \<and> datum h' b = datum h2 b)"
  proof (rule link_backward_frame)
    show "0 < height h2 a" by (simp add: same2 h1a)
    show "0 < height h2 ?hdr" using invd(3) a_notin by (simp add: same2 h1_height)
    fix nx assume nx: "forward_at h2 a 0 = Some (Some nx)"
    have l0: "at_level ?h 0 pre = pre" "at_level ?h 0 post = post"
      using invd(4) by (auto simp: at_level_def)
    have "chain h2 0 (Some ?hdr) (?hdr # pre @ [a] @ post)"
      using chains2[of 0] by (simp add: l0)
    then have "chain h2 0 (Some ?hdr) ((?hdr # pre) @ a # post)" by simp
    from chain_next[OF this] nx have "nx \<in> set post" by (cases post) auto
    then have "0 < height ?h nx" "nx \<noteq> a" using invd(4) a_notin by auto
    then show "0 < height h2 nx" by (simp add: same2 h1_height)
  qed
  then obtain h3 where h3: "link_backward h2 ?hdr a (upd' ! 0) = Some h3"
    "\<And>b i. forward_at h3 b i = forward_at h2 b i"
    "\<And>b. height h3 b = height h2 b" "\<And>b. datum h3 b = datum h2 b"
    by blast
  have ai0: "at_index upd' 0 = Some (upd' ! 0)" using u'(2) by (simp add: at_index_def)
  define s' where "s' = s\<lparr>level := (if nl > level s then nl else level s), rng := g,
                          mem := h3, size_m := size_m s + 1\<rparr>"
  have res: "insert_new s v (Created a) upd
            = Some (Inr (\<lparr>it_node = Some a, it_header = Some ?hdr\<rparr>, True), s')"
    unfolding insert_new_def s'_def using rl u'(1) cn h2(1) ai0 h3(1) by simp
  have hgt: "\<And>b. height h3 b = (if b = a then nl + 1 else height ?h b)"
    by (simp add: h3(3) same2 h1_height)
  have dat: "\<And>b. datum h3 b = (if b = a then v else datum ?h b)"
    by (simp add: h3(4) same2 h1_datum)
  have lev: "\<And>i xs. a \<notin> set xs \<Longrightarrow> at_level h3 i xs = at_level ?h i xs"
    by (rule at_level_cong) (auto simp: hgt)
  have a_pre: "a \<notin> set pre" "a \<notin> set post" "a \<noteq> ?hdr" using a_notin by auto
  have lev': "\<And>i. at_level h3 i (pre @ a # post)
      = at_level ?h i pre @ (if i < Suc nl then [a] else []) @ at_level ?h i post"
    using lev[OF a_pre(1)] lev[OF a_pre(2)] by (simp add: at_level_append) (simp add: at_level_def hgt)
  have inv': "jl_inv s' (pre @ a # post)"
    unfolding jl_inv_def
  proof (intro conjI)
    show "distinct (pre @ a # post)" using invd(1) a_pre by auto
    show "header s' \<notin> set (pre @ a # post)" using invd(2) a_pre by (auto simp: s'_def)
    show "height (mem s') (header s') = MAX_LEVEL + 1"
      using invd(3) a_pre by (simp add: s'_def hgt)
    show "\<forall>b\<in>set (pre @ a # post). 0 < height (mem s') b \<and> height (mem s') b \<le> MAX_LEVEL + 1"
      using invd(4) nlM by (auto simp: s'_def hgt)
    show "\<forall>i\<le>MAX_LEVEL. chain (mem s') i (Some (header s'))
            (header s' # at_level (mem s') i (pre @ a # post))"
    proof (intro allI impI)
      fix i assume iM: "i \<le> MAX_LEVEL"
      have "chain h3 i (Some ?hdr)
              (?hdr # at_level ?h i pre @ (if i < Suc nl then [a] else []) @ at_level ?h i post)
          = chain h2 i (Some ?hdr)
              (?hdr # at_level ?h i pre @ (if i < Suc nl then [a] else []) @ at_level ?h i post)"
        by (rule chain_frame) (rule h3(2))
      with chains2[OF iM] show "chain (mem s') i (Some (header s'))
            (header s' # at_level (mem s') i (pre @ a # post))"
        by (simp add: s'_def lev')
    qed
    show "level s' \<le> MAX_LEVEL" using invd(5) nlM by (simp add: s'_def)
    show "\<forall>i. level s' < i \<and> i \<le> MAX_LEVEL \<longrightarrow> forward_at (mem s') (header s') i = Some None"
    proof (intro allI impI)
      fix i assume i: "level s' < i \<and> i \<le> MAX_LEVEL"
      then have il: "level s < i" "nl < i" "i \<le> MAX_LEVEL" by (auto simp: s'_def split: if_splits)
      have e: "at_level ?h i (pre @ post) = []" by (rule above_level_empty[OF inv il(1,3)])
      have e1: "at_level ?h i pre = []" "at_level ?h i post = []"
        using e by (simp_all add: at_level_append)
      have "chain h2 i (Some ?hdr) (?hdr # [])"
        using chains2[OF il(3)] il(2) by (simp add: e1)
      from chain_header_none[OF this] show "forward_at (mem s') (header s') i = Some None"
        by (simp add: s'_def h3(2))
    qed
    show "sorted_wrt (comp_m s') (map (datum (mem s')) (pre @ a # post))"
    proof -
      have m: "map (datum h3) (pre @ a # post) = map (datum ?h) pre @ v # map (datum ?h) post"
        using a_pre by (auto simp: dat)
      have so: "sorted_wrt (comp_m s) (map (datum ?h) pre @ v # map (datum ?h) post)"
        using invd(6) pre post by (auto simp: sorted_wrt_append)
      have sel: "comp_m s' = comp_m s" "mem s' = h3" by (simp_all add: s'_def)
      show ?thesis unfolding sel m by (rule so)
    qed
    show "size_m s' = of_nat (length (pre @ a # post))" using invd(7) by (simp add: s'_def)
  qed
  show ?thesis
    using res inv' dat hgt by (intro exI[of _ s']) (simp add: s'_def max_def)
qed
lemma insert_new_throws:
  assumes inv: "jl_inv s (pre @ post)"
    and len: "length upd = MAX_LEVEL + 1"
    and upd: "\<forall>j \<le> level s. upd ! j = Some (trail (mem s) (header s) j pre)"
    and rl: "randomLevel (rng s) = (nl, g)"
  shows "insert_new s v AllocThrows upd
           = Some (Inl BadAlloc, s\<lparr>level := (if nl > level s then nl else level s), rng := g\<rparr>)"
    and "mem s a = None \<Longrightarrow> insert_new s v (ConstructThrows a) upd
           = Some (Inl ConstructorThrew,
                   s\<lparr>level := (if nl > level s then nl else level s), rng := g\<rparr>)"
proof -
  have nlM: "nl \<le> MAX_LEVEL" using rl by (rule randomLevel_le)
  have "\<exists>upd'. raise_trail upd (header s) (level s) nl = Some upd' \<and> length upd' = MAX_LEVEL + 1 \<and>
           (\<forall>j. j \<le> level s \<or> j \<le> nl \<longrightarrow> upd' ! j = Some (trail (mem s) (header s) j pre))"
  proof (rule raise_trail_spec[OF len nlM upd])
    show "\<forall>j. level s < j \<and> j \<le> MAX_LEVEL \<longrightarrow> trail (mem s) (header s) j pre = header s"
      using trail_above_level[OF inv] by blast
  qed
  then obtain upd' where u': "raise_trail upd (header s) (level s) nl = Some upd'" by blast
  show "insert_new s v AllocThrows upd
           = Some (Inl BadAlloc, s\<lparr>level := (if nl > level s then nl else level s), rng := g\<rparr>)"
    unfolding insert_new_def using rl u' by (simp add: createNode_def)
  show "mem s a = None \<Longrightarrow> insert_new s v (ConstructThrows a) upd
           = Some (Inl ConstructorThrew,
                   s\<lparr>level := (if nl > level s then nl else level s), rng := g\<rparr>)"
    unfolding insert_new_def using rl u' by (simp add: createNode_def)
qed

lemma node_of_inv:
  assumes "jl_inv s ns" and "c \<in> set ns"
  shows "\<exists>n. mem s c = Some n \<and> data n = datum (mem s) c"
proof -
  from assms have "0 < height (mem s) c" unfolding jl_inv_def by blast
  from height_pos_alloc[OF this] show ?thesis by (auto simp: datum_def)
qed

lemma find_lower_equiv:
  assumes inv: "jl_inv s ns" and swo: "strict_weak_order (comp_m s)"
    and e: "e \<in> set ns" "equiv (comp_m s) (datum (mem s) e) v"
  shows "\<exists>c. List.find (\<lambda>a. \<not> comp_m s (datum (mem s) a) v) ns = Some c \<and> c \<in> set ns \<and>
             equiv (comp_m s) (datum (mem s) c) v"
proof -
  let ?d = "datum (mem s)" and ?c = "comp_m s"
  let ?P = "\<lambda>a. ?c (?d a) v"
  have ne: "\<not> ?P e" using e(2) by (simp add: equiv_def)
  have "set ns = set (takeWhile ?P ns) \<union> set (dropWhile ?P ns)"
    by (metis set_append takeWhile_dropWhile_id)
  then have "e \<in> set (dropWhile ?P ns)" using e(1) ne takeWhile_all[of ?P ns] by blast
  then obtain c0 rest where dw: "dropWhile ?P ns = c0 # rest" by (cases "dropWhile ?P ns") auto
  have n0: "\<not> ?P c0" using hd_dropWhile[of ?P ns] dw by auto
  have ns: "ns = takeWhile ?P ns @ c0 # rest"
    using takeWhile_dropWhile_id[of ?P ns] dw by simp
  have "sorted_wrt ?c (map ?d ns)" using inv by (simp add: jl_inv_def)
  then have "sorted_wrt ?c (map ?d (takeWhile ?P ns @ c0 # rest))" using ns by simp
  then have lt: "\<forall>b\<in>set rest. ?c (?d c0) (?d b)" by (simp add: sorted_wrt_append)
  have "\<not> ?c v (?d c0)"
  proof
    assume vc: "?c v (?d c0)"
    from \<open>e \<in> set (dropWhile ?P ns)\<close> dw have "e = c0 \<or> e \<in> set rest" by simp
    then show False
    proof
      assume "e = c0" with vc e(2) show False by (simp add: equiv_def)
    next
      assume "e \<in> set rest"
      with lt have "?c (?d c0) (?d e)" by blast
      with vc swo have "?c v (?d e)" unfolding strict_weak_order_def by blast
      with e(2) show False by (simp add: equiv_def)
    qed
  qed
  with n0 have "equiv ?c (?d c0) v" by (simp add: equiv_def)
  moreover have "c0 \<in> set ns" using ns by (metis in_set_conv_decomp)
  moreover have "List.find (\<lambda>a. \<not> ?P a) ns = Some c0" by (simp add: find_dropWhile dw)
  ultimately show ?thesis by blast
qed

lemma search_update_lower:
  assumes inv: "jl_inv s ns" and swo: "strict_weak_order (comp_m s)"
  shows "\<exists>cur upd. search_update (mem s) (\<lambda>x. comp_m s x v) (level s) (header s)
             (replicate (MAX_LEVEL + 1) None) = Some (cur, upd) \<and>
           forward_at (mem s) cur 0
             = Some (List.find (\<lambda>a. \<not> comp_m s (datum (mem s) a) v) ns) \<and>
           length upd = MAX_LEVEL + 1 \<and>
           (\<forall>j \<le> level s. upd ! j = Some (trail (mem s) (header s) j
                (takeWhile (\<lambda>a. comp_m s (datum (mem s) a) v) ns)))"
proof -
  let ?P = "\<lambda>a. comp_m s (datum (mem s) a) v"
  let ?pre = "takeWhile ?P ns" and ?post = "dropWhile ?P ns"
  let ?upd = "trail_update (mem s) (header s) ?pre (level s) (replicate (MAX_LEVEL + 1) None)"
  have inv': "jl_inv s (?pre @ ?post)" using inv by simp
  have lv: "level s \<le> MAX_LEVEL" using inv by (simp add: jl_inv_def)
  have "search_update (mem s) (\<lambda>x. comp_m s x v) (level s) (header s)
          (replicate (MAX_LEVEL + 1) None)
        = Some (trail (mem s) (header s) 0 ?pre, ?upd)"
    by (rule search_update_inv[OF inv' lower_split[OF inv swo] lv header_in_level])
       (use lv in simp)
  moreover have "forward_at (mem s) (trail (mem s) (header s) 0 ?pre) 0
        = Some (List.find (\<lambda>a. \<not> ?P a) ns)"
    using forward_trail_0[OF inv'] by (simp add: find_dropWhile)
  moreover have "length ?upd = MAX_LEVEL + 1" by (simp add: trail_update_replicate)
  moreover have "\<forall>j \<le> level s. ?upd ! j = Some (trail (mem s) (header s) j ?pre)"
    using lv by (simp add: trail_update_replicate)
  ultimately show ?thesis by blast
qed

lemma insert_value_existing:
  assumes inv: "jl_inv s ns" and swo: "strict_weak_order (comp_m s)"
    and e: "e \<in> set ns" "equiv (comp_m s) (datum (mem s) e) v"
  shows "\<exists>c. insert_value s v out
            = Some (Inr (\<lparr>it_node = Some c, it_header = Some (header s)\<rparr>, False), s) \<and>
          c \<in> set ns \<and> equiv (comp_m s) (datum (mem s) c) v"
proof -
  from find_lower_equiv[OF inv swo e] obtain c where
    c: "List.find (\<lambda>a. \<not> comp_m s (datum (mem s) a) v) ns = Some c" "c \<in> set ns"
       "equiv (comp_m s) (datum (mem s) c) v" by blast
  from search_update_lower[OF inv swo, of v] obtain cur upd where
    su: "search_update (mem s) (\<lambda>x. comp_m s x v) (level s) (header s)
             (replicate (MAX_LEVEL + 1) None) = Some (cur, upd)"
       "forward_at (mem s) cur 0 = Some (List.find (\<lambda>a. \<not> comp_m s (datum (mem s) a) v) ns)"
    by blast
  from node_of_inv[OF inv c(2)] obtain n where n: "mem s c = Some n" "data n = datum (mem s) c"
    by blast
  have "insert_value s v out
            = Some (Inr (\<lparr>it_node = Some c, it_header = Some (header s)\<rparr>, False), s)"
    unfolding insert_value_def using su c(1,3) n by (simp add: equiv_def)
  with c show ?thesis by blast
qed

lemma insert_value_absent:
  assumes inv: "jl_inv s ns" and swo: "strict_weak_order (comp_m s)"
    and ne: "\<forall>e\<in>set ns. \<not> equiv (comp_m s) (datum (mem s) e) v"
  shows "\<exists>upd. insert_value s v out = insert_new s v out upd \<and>
           length upd = MAX_LEVEL + 1 \<and>
           (\<forall>j \<le> level s. upd ! j = Some (trail (mem s) (header s) j
                (takeWhile (\<lambda>a. comp_m s (datum (mem s) a) v) ns))) \<and>
           (\<forall>b\<in>set (dropWhile (\<lambda>a. comp_m s (datum (mem s) a) v) ns).
                comp_m s v (datum (mem s) b))"
proof -
  let ?P = "\<lambda>a. comp_m s (datum (mem s) a) v"
  from search_update_lower[OF inv swo, of v] obtain cur upd where
    su: "search_update (mem s) (\<lambda>x. comp_m s x v) (level s) (header s)
             (replicate (MAX_LEVEL + 1) None) = Some (cur, upd)"
       "forward_at (mem s) cur 0 = Some (List.find (\<lambda>a. \<not> ?P a) ns)"
       "length upd = MAX_LEVEL + 1"
       "\<forall>j \<le> level s. upd ! j = Some (trail (mem s) (header s) j (takeWhile ?P ns))"
    by blast
  have post: "\<forall>b\<in>set (dropWhile ?P ns). comp_m s v (datum (mem s) b)"
  proof
    fix b assume b: "b \<in> set (dropWhile ?P ns)"
    then have "b \<in> set ns" by (rule set_dropWhileD)
    with ne have "\<not> equiv (comp_m s) (datum (mem s) b) v" by blast
    moreover have "\<not> ?P b" using lower_split(2)[OF inv swo, of v] b by blast
    ultimately show "comp_m s v (datum (mem s) b)" by (simp add: equiv_def)
  qed
  have "insert_value s v out = insert_new s v out upd"
  proof (cases "List.find (\<lambda>a. \<not> ?P a) ns")
    case None
    then show ?thesis unfolding insert_value_def using su(1,2) by simp
  next
    case (Some c)
    then have cin: "c \<in> set ns" by (auto simp: find_Some_iff)
    from node_of_inv[OF inv cin] obtain n where n: "mem s c = Some n" "data n = datum (mem s) c"
      by blast
    from ne cin have "\<not> equiv (comp_m s) (datum (mem s) c) v" by blast
    then show ?thesis unfolding insert_value_def using su(1,2) Some n by (auto simp: equiv_def)
  qed
  with su(3,4) post show ?thesis by blast
qed

section \<open>erase\<close>

lemma at_level_mid:
  "at_level h i (pre @ c # post) = at_level h i pre @ at_level h i [c] @ at_level h i post"
  by (simp add: at_level_def)

lemma unlink_step:
  assumes I: "unlink_inv h hdr c pre post j m"
    and j: "j \<le> MAX_LEVEL"
    and upd: "at_index update j = Some (Some (trail h hdr j pre))"
    and dist: "distinct (hdr # pre @ c # post)"
  shows "\<exists>m'. unlink update c j m = Some m' \<and> unlink_inv h hdr c pre post (Suc j) m'"
proof -
  let ?u = "trail h hdr j pre"
  let ?L = "\<lambda>i xs. at_level h i xs"
  have same: "\<And>b. height m b = height h b" "\<And>b. datum m b = datum h b"
    using I by (auto simp: unlink_inv_def)
  have chains: "\<And>i. i \<le> MAX_LEVEL \<Longrightarrow>
      chain m i (Some hdr) (hdr # ?L i pre @ (if i < j then [] else ?L i [c]) @ ?L i post)"
    using I by (auto simp: unlink_inv_def)
  define X where "X = butlast (hdr # ?L j pre)"
  have Xu: "hdr # ?L j pre = X @ [?u]"
    unfolding X_def trail_def by (rule append_butlast_last_id[symmetric]) simp
  have "chain m j (Some hdr) ((hdr # ?L j pre) @ ?L j [c] @ ?L j post)"
    using chains[OF j] by simp
  then have cj: "chain m j (Some hdr) (X @ ?u # ?L j [c] @ ?L j post)" by (simp only: Xu) simp
  have sub: "set (hdr # ?L j pre @ ?L j post) \<subseteq> set (hdr # pre @ post)"
    using at_level_subset[of h j pre] at_level_subset[of h j post] by auto
  have "?u \<in> set (hdr # ?L j pre)" by (rule trail_in_level)
  then have "?u \<in> set (hdr # pre)" using at_level_subset[of h j pre] by auto
  with dist have uc: "?u \<noteq> c" by auto
  have cpost: "c \<notin> set (?L j post)" using dist at_level_subset[of h j post] by auto
  have dj: "distinct (X @ ?u # ?L j [c] @ ?L j post)"
  proof -
    have "distinct (hdr # ?L j (pre @ c # post))"
      using dist at_level_subset[of h j "pre @ c # post"] by (auto simp: distinct_at_level)
    then have "distinct ((hdr # ?L j pre) @ ?L j [c] @ ?L j post)"
      by (simp only: at_level_mid append_Cons)
    then show ?thesis by (simp only: Xu) simp
  qed
  have new: "\<And>m'. (\<And>b. height m' b = height m b) \<Longrightarrow> (\<And>b. datum m' b = datum m b) \<Longrightarrow>
      (\<And>b i. i \<noteq> j \<Longrightarrow> forward_at m' b i = forward_at m b i) \<Longrightarrow>
      chain m' j (Some hdr) (X @ ?u # ?L j post) \<Longrightarrow> unlink_inv h hdr c pre post (Suc j) m'"
  proof -
    fix m' assume hm: "\<And>b. height m' b = height m b" and dm: "\<And>b. datum m' b = datum m b"
      and fm: "\<And>b i. i \<noteq> j \<Longrightarrow> forward_at m' b i = forward_at m b i"
      and cm: "chain m' j (Some hdr) (X @ ?u # ?L j post)"
    from cm have "chain m' j (Some hdr) ((X @ [?u]) @ ?L j post)" by simp
    then have cm': "chain m' j (Some hdr) (hdr # ?L j pre @ [] @ ?L j post)"
      by (simp only: Xu[symmetric]) simp
    show "unlink_inv h hdr c pre post (Suc j) m'"
      unfolding unlink_inv_def
    proof (intro conjI allI impI)
      fix b show "height m' b = height h b" by (simp add: hm same)
      show "datum m' b = datum h b" by (simp add: dm same)
    next
      fix i assume iM: "i \<le> MAX_LEVEL"
      show "chain m' i (Some hdr)
              (hdr # ?L i pre @ (if i < Suc j then [] else ?L i [c]) @ ?L i post)"
      proof (cases "i = j")
        case True
        with cm' show ?thesis by simp
      next
        case False
        then have "(i < Suc j) = (i < j)" by auto
        moreover have "chain m' i (Some hdr)
                (hdr # ?L i pre @ (if i < j then [] else ?L i [c]) @ ?L i post)
            = chain m i (Some hdr)
                (hdr # ?L i pre @ (if i < j then [] else ?L i [c]) @ ?L i post)"
          by (rule chain_frame) (simp add: fm False)
        ultimately show ?thesis using chains[OF iM] by simp
      qed
    qed
  qed
  show ?thesis
  proof (cases "j < height h c")
    case True
    then have Lc: "?L j [c] = [c]" by (simp add: at_level_def)
    from cj have cj': "chain m j (Some hdr) (X @ ?u # c # ?L j post)" by (simp add: Lc)
    from chain_next[OF cj'] have fu: "forward_at m ?u j = Some (Some c)" by simp
    have "j < height m c" using True by (simp add: same)
    from forward_at_defined[OF this] obtain cf where cf: "forward_at m c j = Some cf" by blast
    have "j < height m ?u" using forward_at_Some_height[OF fu] .
    from set_forward_defined[OF this] obtain m' where m': "set_forward m ?u j cf = Some m'"
      by blast
    have fw: "\<And>b i. forward_at m' b i = (if b = ?u \<and> i = j then Some cf else forward_at m b i)"
      using set_forward_forward_at[OF m'] by simp
    have un: "unlink update c j m = Some m'"
      using upd fu cf m' by (simp add: unlink_def)
    have "chain m' j (Some hdr) (X @ ?u # ?L j post)"
    proof (rule chain_unlink[OF cj'])
      show "distinct (X @ ?u # c # ?L j post)" using dj by (simp add: Lc)
      show "forward_at m' ?u j = forward_at m c j" by (simp add: fw cf)
      show "\<And>b. b \<noteq> ?u \<Longrightarrow> b \<noteq> c \<Longrightarrow> forward_at m' b j = forward_at m b j"
        by (simp add: fw)
    qed
    then have "unlink_inv h hdr c pre post (Suc j) m'"
      by (intro new) (simp_all add: set_forward_height[OF m'] set_forward_datum[OF m'] fw)
    with un show ?thesis by blast
  next
    case False
    then have Lc: "?L j [c] = []" by (simp add: at_level_def)
    from cj have cj': "chain m j (Some hdr) (X @ ?u # ?L j post)" by (simp add: Lc)
    from chain_next[OF cj'] have fu: "forward_at m ?u j
        = Some (case ?L j post of [] \<Rightarrow> None | y # _ \<Rightarrow> Some y)" .
    have "(case ?L j post of [] \<Rightarrow> None | y # _ \<Rightarrow> Some y) \<noteq> Some c"
      using cpost by (cases "?L j post") auto
    with fu upd have un: "unlink update c j m = Some m" by (simp add: unlink_def)
    have "unlink_inv h hdr c pre post (Suc j) m" by (intro new cj') simp_all
    with un show ?thesis by blast
  qed
qed

lemma unlink_loop:
  assumes I: "unlink_inv h hdr c pre post 0 h"
    and lv: "lv \<le> MAX_LEVEL"
    and upd: "\<forall>j \<le> lv. at_index update j = Some (Some (trail h hdr j pre))"
    and dist: "distinct (hdr # pre @ c # post)"
  shows "\<exists>m. for_loop [0 ..< Suc lv] (unlink update c) h = Some m \<and>
             unlink_inv h hdr c pre post (Suc lv) m"
proof (rule for_loop_upt_rule[where I = "unlink_inv h hdr c pre post"])
  show "unlink_inv h hdr c pre post 0 h" by (rule I)
  show "0 \<le> Suc lv" by simp
next
  fix i y assume i: "0 \<le> i" "i < Suc lv" and Iy: "unlink_inv h hdr c pre post i y"
  have il: "i \<le> lv" using i by simp
  then have iM: "i \<le> MAX_LEVEL" using lv by simp
  show "\<exists>y'. unlink update c i y = Some y' \<and> unlink_inv h hdr c pre post (Suc i) y'"
    by (rule unlink_step[OF Iy iM _ dist]) (use upd il in simp)
qed

lemma shrink_level_spec:
  "(\<And>k. k \<le> lv \<Longrightarrow> \<exists>q. forward_at h hdr k = Some q) \<Longrightarrow>
   \<exists>l. shrink_level h hdr lv = Some l \<and> l \<le> lv \<and>
       (\<forall>i. l < i \<and> i \<le> lv \<longrightarrow> forward_at h hdr i = Some None) \<and>
       (0 < l \<longrightarrow> forward_at h hdr l \<noteq> Some None)"
proof (induction lv)
  case 0
  show ?case by simp
next
  case (Suc lv)
  from Suc.prems[of "Suc lv"] obtain q where q: "forward_at h hdr (Suc lv) = Some q" by auto
  show ?case
  proof (cases q)
    case None
    from Suc.IH Suc.prems obtain l where l: "shrink_level h hdr lv = Some l" "l \<le> lv"
      "\<forall>i. l < i \<and> i \<le> lv \<longrightarrow> forward_at h hdr i = Some None"
      "0 < l \<longrightarrow> forward_at h hdr l \<noteq> Some None"
      by (metis le_SucI)
    have "\<forall>i. l < i \<and> i \<le> Suc lv \<longrightarrow> forward_at h hdr i = Some None"
      using l(3) q None by (auto simp: le_Suc_eq)
    with l q None show ?thesis by simp
  next
    case (Some x)
    with q show ?thesis by auto
  qed
qed

lemma unlink_backward_frame:
  assumes "0 < height h c" and "0 < height h hdr"
    and "\<And>nx. next_node = Some nx \<Longrightarrow> 0 < height h nx"
  shows "\<exists>h'. unlink_backward h hdr c next_node = Some h' \<and>
           (\<forall>b i. forward_at h' b i = forward_at h b i) \<and>
           (\<forall>b. height h' b = height h b \<and> datum h' b = datum h b)"
proof -
  from height_pos_alloc[OF assms(1)] obtain cn where cn: "h c = Some cn" by blast
  show ?thesis
  proof (cases next_node)
    case None
    from set_backward_defined[OF assms(2)]
    obtain h2 where h2: "set_backward h hdr (backward cn) = Some h2" by blast
    have "unlink_backward h hdr c next_node = Some h2"
      using cn None h2 by (simp add: unlink_backward_def)
    then show ?thesis
      using set_backward_forward_at[OF h2] set_backward_height[OF h2] set_backward_datum[OF h2]
      by simp
  next
    case (Some nx)
    with assms(3) have "0 < height h nx" by simp
    from set_backward_defined[OF this]
    obtain h2 where h2: "set_backward h nx (backward cn) = Some h2" by blast
    have "unlink_backward h hdr c next_node = Some h2"
      using cn Some h2 by (simp add: unlink_backward_def)
    then show ?thesis
      using set_backward_forward_at[OF h2] set_backward_height[OF h2] set_backward_datum[OF h2]
      by simp
  qed
qed
lemma erase_node_spec:
  assumes inv: "jl_inv s (pre @ c # post)"
    and len: "length upd = MAX_LEVEL + 1"
    and upd: "\<forall>j \<le> level s. upd ! j = Some (trail (mem s) (header s) j pre)"
  shows "\<exists>s'. erase_node s c upd
            = Some (\<lparr>it_node = (case post of [] \<Rightarrow> None | y # _ \<Rightarrow> Some y),
                     it_header = Some (header s)\<rparr>, s') \<and>
          jl_inv s' (pre @ post) \<and> level_minimal s' \<and>
          (\<forall>b. b \<noteq> c \<longrightarrow> datum (mem s') b = datum (mem s) b) \<and>
          (\<forall>b. b \<noteq> c \<longrightarrow> height (mem s') b = height (mem s) b) \<and>
          mem s' c = None \<and>
          size_m s' = size_m s - 1 \<and> header s' = header s \<and> comp_m s' = comp_m s \<and>
          rng s' = rng s \<and> level s' \<le> level s"
proof -
  let ?h = "mem s" and ?hdr = "header s"
  let ?L = "\<lambda>i xs. at_level ?h i xs"
  have invd: "distinct (pre @ c # post)" "?hdr \<notin> set (pre @ c # post)"
    "height ?h ?hdr = MAX_LEVEL + 1"
    "\<forall>b\<in>set (pre @ c # post). 0 < height ?h b \<and> height ?h b \<le> MAX_LEVEL + 1"
    "level s \<le> MAX_LEVEL"
    "sorted_wrt (comp_m s) (map (datum ?h) (pre @ c # post))"
    "size_m s = of_nat (length (pre @ c # post))"
    using inv unfolding jl_inv_def by blast+
  have chains: "\<And>i. i \<le> MAX_LEVEL \<Longrightarrow>
      chain ?h i (Some ?hdr) (?hdr # at_level ?h i (pre @ c # post))"
    using inv unfolding jl_inv_def by blast
  have dist: "distinct (?hdr # pre @ c # post)" using invd(1,2) by simp
  have c_notin: "c \<notin> set pre" "c \<notin> set post" "c \<noteq> ?hdr" using dist by auto
  have hc: "0 < height ?h c" using invd(4) by simp
  \<comment> \<open>the successor\<close>
  have l0: "at_level ?h 0 (pre @ c # post) = pre @ c # post"
    using invd(4) by (intro at_level_0) simp
  have "chain ?h 0 (Some ?hdr) ((?hdr # pre) @ c # post)"
    using chains[of 0] by (simp add: l0)
  from chain_next[OF this]
  have nx: "forward_at ?h c 0 = Some (case post of [] \<Rightarrow> None | y # _ \<Rightarrow> Some y)" .
  \<comment> \<open>the unlinking loop\<close>
  have I0: "unlink_inv ?h ?hdr c pre post 0 ?h"
    unfolding unlink_inv_def using chains by (simp add: at_level_mid)
  have at': "\<forall>j \<le> level s. at_index upd j = Some (Some (trail ?h ?hdr j pre))"
    using upd len invd(5) by (auto simp: at_index_def)
  from unlink_loop[OF I0 invd(5) at' dist]
  obtain h2 where h2: "for_loop [0 ..< Suc (level s)] (unlink upd c) ?h = Some h2"
    "unlink_inv ?h ?hdr c pre post (Suc (level s)) h2" by blast
  have same2: "\<And>b. height h2 b = height ?h b" "\<And>b. datum h2 b = datum ?h b"
    using h2(2) by (auto simp: unlink_inv_def)
  have chains2: "\<And>i. i \<le> MAX_LEVEL \<Longrightarrow> chain h2 i (Some ?hdr) (?hdr # ?L i pre @ ?L i post)"
  proof -
    fix i assume iM: "i \<le> MAX_LEVEL"
    have c2: "chain h2 i (Some ?hdr)
        (?hdr # ?L i pre @ (if i < Suc (level s) then [] else ?L i [c]) @ ?L i post)"
      using h2(2) iM unfolding unlink_inv_def by blast
    show "chain h2 i (Some ?hdr) (?hdr # ?L i pre @ ?L i post)"
    proof (cases "i < Suc (level s)")
      case True
      with c2 show ?thesis by simp
    next
      case False
      then have "level s < i" by simp
      from above_level_empty[OF inv this iM] have "?L i [c] = []"
        by (simp add: at_level_mid)
      with c2 False show ?thesis by simp
    qed
  qed
  \<comment> \<open>the backward links\<close>
  have "\<exists>h'. unlink_backward h2 ?hdr c (case post of [] \<Rightarrow> None | y # _ \<Rightarrow> Some y) = Some h' \<and>
           (\<forall>b i. forward_at h' b i = forward_at h2 b i) \<and>
           (\<forall>b. height h' b = height h2 b \<and> datum h' b = datum h2 b)"
  proof (rule unlink_backward_frame)
    show "0 < height h2 c" using hc by (simp add: same2)
    show "0 < height h2 ?hdr" using invd(3) by (simp add: same2)
    fix nx assume "(case post of [] \<Rightarrow> None | y # _ \<Rightarrow> Some y) = Some nx"
    then have "nx \<in> set post" by (cases post) auto
    then show "0 < height h2 nx" using invd(4) by (simp add: same2)
  qed
  then obtain h3 where h3:
    "unlink_backward h2 ?hdr c (case post of [] \<Rightarrow> None | y # _ \<Rightarrow> Some y) = Some h3"
    "\<And>b i. forward_at h3 b i = forward_at h2 b i"
    "\<And>b. height h3 b = height h2 b" "\<And>b. datum h3 b = datum h2 b"
    by blast
  \<comment> \<open>the node is destroyed\<close>
  define h4 where "h4 = h3(c := None)"
  have "0 < height h3 c" using hc h3(3)[of c] same2(1)[of c] by simp
  from height_pos_alloc[OF this] have "h3 c \<noteq> None" by auto
  then have dn: "destroyNode h3 ?hdr (Some c) = Some h4"
    using c_notin(3) by (simp add: destroyNode_def h4_def)
  have fw4: "\<And>b i. b \<noteq> c \<Longrightarrow> forward_at h4 b i = forward_at h2 b i"
    by (simp add: h4_def forward_at_def h3(2)[unfolded forward_at_def])
  have hgt: "\<And>b. height h4 b = (if b = c then 0 else height ?h b)"
    using h3(3) same2(1) by (simp add: h4_def height_def)
  have dat: "\<And>b. b \<noteq> c \<Longrightarrow> datum h4 b = datum ?h b"
    using h3(4) same2(2) by (simp add: h4_def datum_def)
  have chains4: "\<And>i. i \<le> MAX_LEVEL \<Longrightarrow> chain h4 i (Some ?hdr) (?hdr # ?L i pre @ ?L i post)"
  proof -
    fix i assume iM: "i \<le> MAX_LEVEL"
    have "chain h4 i (Some ?hdr) (?hdr # ?L i pre @ ?L i post)
        = chain h2 i (Some ?hdr) (?hdr # ?L i pre @ ?L i post)"
    proof (rule chain_frame)
      fix b assume "b \<in> set (?hdr # ?L i pre @ ?L i post)"
      then have "b \<in> set (?hdr # pre @ post)"
        using at_level_subset[of ?h i pre] at_level_subset[of ?h i post] by auto
      with c_notin have "b \<noteq> c" by auto
      then show "forward_at h4 b i = forward_at h2 b i" by (rule fw4)
    qed
    with chains2[OF iM] show "chain h4 i (Some ?hdr) (?hdr # ?L i pre @ ?L i post)" by simp
  qed
  \<comment> \<open>the level shrinks\<close>
  have "\<exists>l. shrink_level h4 ?hdr (level s) = Some l \<and> l \<le> level s \<and>
       (\<forall>i. l < i \<and> i \<le> level s \<longrightarrow> forward_at h4 ?hdr i = Some None) \<and>
       (0 < l \<longrightarrow> forward_at h4 ?hdr l \<noteq> Some None)"
  proof (rule shrink_level_spec)
    fix k assume "k \<le> level s"
    then have "k < height h4 ?hdr" using invd(3,5) c_notin(3) by (simp add: hgt)
    then show "\<exists>q. forward_at h4 ?hdr k = Some q" by (rule forward_at_defined)
  qed
  then obtain l where l: "shrink_level h4 ?hdr (level s) = Some l" "l \<le> level s"
    "\<forall>i. l < i \<and> i \<le> level s \<longrightarrow> forward_at h4 ?hdr i = Some None"
    "0 < l \<longrightarrow> forward_at h4 ?hdr l \<noteq> Some None" by blast
  define s' where "s' = s\<lparr>mem := h4, level := l, size_m := size_m s - 1\<rparr>"
  have res: "erase_node s c upd
            = Some (\<lparr>it_node = (case post of [] \<Rightarrow> None | y # _ \<Rightarrow> Some y),
                     it_header = Some ?hdr\<rparr>, s')"
    unfolding erase_node_def s'_def using nx h2(1) h3(1) dn l(1) by simp
  have lev: "\<And>i xs. c \<notin> set xs \<Longrightarrow> at_level h4 i xs = at_level ?h i xs"
    by (rule at_level_cong) (auto simp: hgt)
  have lev': "\<And>i. at_level h4 i (pre @ post) = ?L i pre @ ?L i post"
    using lev[OF c_notin(1)] lev[OF c_notin(2)] by (simp add: at_level_append)
  have inv': "jl_inv s' (pre @ post)"
    unfolding jl_inv_def
  proof (intro conjI)
    show "distinct (pre @ post)" using invd(1) by auto
    show "header s' \<notin> set (pre @ post)" using invd(2) by (auto simp: s'_def)
    show "height (mem s') (header s') = MAX_LEVEL + 1"
      using invd(3) c_notin by (simp add: s'_def hgt)
    show "\<forall>b\<in>set (pre @ post). 0 < height (mem s') b \<and> height (mem s') b \<le> MAX_LEVEL + 1"
      using invd(4) c_notin by (auto simp: s'_def hgt)
    show "\<forall>i\<le>MAX_LEVEL. chain (mem s') i (Some (header s'))
            (header s' # at_level (mem s') i (pre @ post))"
      using chains4 by (simp add: s'_def lev')
    show "level s' \<le> MAX_LEVEL" using invd(5) l(2) by (simp add: s'_def)
    show "\<forall>i. level s' < i \<and> i \<le> MAX_LEVEL \<longrightarrow> forward_at (mem s') (header s') i = Some None"
    proof (intro allI impI)
      fix i assume i: "level s' < i \<and> i \<le> MAX_LEVEL"
      then have il: "l < i" "i \<le> MAX_LEVEL" by (auto simp: s'_def)
      show "forward_at (mem s') (header s') i = Some None"
      proof (cases "i \<le> level s")
        case True
        with l(3) il show ?thesis by (simp add: s'_def)
      next
        case False
        then have "level s < i" by simp
        from above_level_empty[OF inv this il(2)]
        have e1: "?L i pre = []" "?L i post = []" by (simp_all add: at_level_mid)
        have "chain h4 i (Some ?hdr) (?hdr # [])" using chains4[OF il(2)] by (simp add: e1)
        from chain_header_none[OF this] show ?thesis by (simp add: s'_def)
      qed
    qed
    show "sorted_wrt (comp_m s') (map (datum (mem s')) (pre @ post))"
    proof -
      have "\<And>x. x \<in> set pre \<or> x \<in> set post \<Longrightarrow> datum h4 x = datum ?h x"
      proof -
        fix x assume "x \<in> set pre \<or> x \<in> set post"
        then have "x \<noteq> c" using c_notin by auto
        then show "datum h4 x = datum ?h x" by (rule dat)
      qed
      then have m: "map (datum h4) (pre @ post) = map (datum ?h) pre @ map (datum ?h) post"
        by simp
      have so: "sorted_wrt (comp_m s) (map (datum ?h) pre @ map (datum ?h) post)"
        using invd(6) by (auto simp: sorted_wrt_append)
      have sel: "comp_m s' = comp_m s" "mem s' = h4" by (simp_all add: s'_def)
      show ?thesis unfolding sel m by (rule so)
    qed
    show "size_m s' = of_nat (length (pre @ post))" using invd(7) by (simp add: s'_def)
  qed
  have lm: "level_minimal s'" using l(4) by (simp add: level_minimal_def s'_def)
  have "mem s' c = None" by (simp add: s'_def h4_def)
  with res inv' lm dat hgt l(2) show ?thesis
    by (intro exI[of _ s']) (simp add: s'_def)
qed
lemma successor_split:
  "c \<notin> set pre \<Longrightarrow> successor (pre @ c # post) c = (case post of [] \<Rightarrow> None | y # _ \<Rightarrow> Some y)"
proof (induction pre)
  case Nil
  show ?case by (cases post) auto
next
  case (Cons x pre)
  then show ?case by (cases pre) auto
qed

lemma remove1_split: "c \<notin> set pre \<Longrightarrow> remove1 c (pre @ c # post) = pre @ post"
  by (simp add: remove1_append)

lemma equiv_trans:
  assumes "strict_weak_order c" and "equiv c x y" and "equiv c y z"
  shows "equiv c x z"
  using assms unfolding strict_weak_order_def equiv_def by blast

lemma equiv_refl: "strict_weak_order c \<Longrightarrow> equiv c x x"
  unfolding strict_weak_order_def equiv_def by blast

lemma equiv_sym: "equiv c x y \<Longrightarrow> equiv c y x"
  unfolding equiv_def by blast

lemma equiv_unique:
  assumes inv: "jl_inv s ns" and c: "c \<in> set ns" and p: "p \<in> set ns"
    and e: "equiv (comp_m s) (datum (mem s) c) (datum (mem s) p)"
  shows "c = p"
proof (rule ccontr)
  assume ne: "c \<noteq> p"
  from c p obtain i j where ij: "i < length ns" "ns ! i = c" "j < length ns" "ns ! j = p"
    by (auto simp: in_set_conv_nth)
  with ne have "i \<noteq> j" by auto
  have so: "sorted_wrt (comp_m s) (map (datum (mem s)) ns)" using inv by (simp add: jl_inv_def)
  have "comp_m s (datum (mem s) c) (datum (mem s) p) \<or> comp_m s (datum (mem s) p) (datum (mem s) c)"
  proof (cases "i < j")
    case True
    with so ij have "comp_m s (map (datum (mem s)) ns ! i) (map (datum (mem s)) ns ! j)"
      by (auto simp: sorted_wrt_iff_nth_less)
    with ij show ?thesis by simp
  next
    case False
    with \<open>i \<noteq> j\<close> have "j < i" by simp
    with so ij have "comp_m s (map (datum (mem s)) ns ! j) (map (datum (mem s)) ns ! i)"
      by (auto simp: sorted_wrt_iff_nth_less)
    with ij show ?thesis by simp
  qed
  with e show False by (simp add: equiv_def)
qed

lemma find_lower_split:
  assumes "List.find (\<lambda>a. \<not> P a) ns = Some c"
  shows "ns = takeWhile P ns @ c # tl (dropWhile P ns)" and "c \<notin> set (takeWhile P ns)"
proof -
  from assms have dw: "dropWhile P ns = c # tl (dropWhile P ns)"
    by (cases "dropWhile P ns") (auto simp: find_dropWhile)
  then show "ns = takeWhile P ns @ c # tl (dropWhile P ns)"
    using takeWhile_dropWhile_id[of P ns] by simp
  have "\<not> P c" using hd_dropWhile[of P ns] dw by (metis list.distinct(1) list.sel(1))
  then show "c \<notin> set (takeWhile P ns)" using takeWhile_all[of P ns] by blast
qed

lemma erase_pos_absent:
  assumes inv: "jl_inv s ns" and swo: "strict_weak_order (comp_m s)"
    and pos: "it_node pos = Some p" "mem s p = Some n"
    and ne: "\<forall>e\<in>set ns. \<not> equiv (comp_m s) (datum (mem s) e) (data n)"
  shows "erase_pos s pos = Some (end_it s, s)"
proof -
  let ?v = "data n"
  let ?P = "\<lambda>a. comp_m s (datum (mem s) a) ?v"
  from search_update_lower[OF inv swo, of ?v] obtain cur upd where
    su: "search_update (mem s) (\<lambda>x. comp_m s x ?v) (level s) (header s)
             (replicate (MAX_LEVEL + 1) None) = Some (cur, upd)"
       "forward_at (mem s) cur 0 = Some (List.find (\<lambda>a. \<not> ?P a) ns)"
    by blast
  have ne_end: "\<not> it_eq pos (end_it s)" using pos by (simp add: it_eq_def end_it_def)
  have dr: "it_deref (mem s) pos = Some ?v" using pos by (simp add: it_deref_def deref_def)
  show ?thesis
  proof (cases "List.find (\<lambda>a. \<not> ?P a) ns")
    case None
    then show ?thesis unfolding erase_pos_def using ne_end dr su by simp
  next
    case (Some c)
    then have cin: "c \<in> set ns" by (auto simp: find_Some_iff)
    from node_of_inv[OF inv cin] obtain m where m: "mem s c = Some m" "data m = datum (mem s) c"
      by blast
    from ne cin have "\<not> equiv (comp_m s) (datum (mem s) c) ?v" by blast
    then show ?thesis unfolding erase_pos_def using ne_end dr su Some m
      by (auto simp: equiv_def)
  qed
qed

lemma erase_pos_present:
  assumes inv: "jl_inv s ns" and swo: "strict_weak_order (comp_m s)"
    and pos: "it_node pos = Some p" "mem s p = Some n"
    and e: "e \<in> set ns" "equiv (comp_m s) (datum (mem s) e) (data n)"
  shows "\<exists>s'. erase_pos s pos
            = Some (\<lparr>it_node = successor ns e, it_header = Some (header s)\<rparr>, s') \<and>
          jl_inv s' (remove1 e ns) \<and> level_minimal s' \<and>
          (\<forall>b. b \<noteq> e \<longrightarrow> datum (mem s') b = datum (mem s) b) \<and>
          (\<forall>b. b \<noteq> e \<longrightarrow> height (mem s') b = height (mem s) b) \<and>
          mem s' e = None \<and>
          size_m s' = size_m s - 1 \<and> header s' = header s \<and> comp_m s' = comp_m s \<and>
          rng s' = rng s \<and> level s' \<le> level s"
proof -
  let ?v = "data n"
  let ?P = "\<lambda>a. comp_m s (datum (mem s) a) ?v"
  let ?pre = "takeWhile ?P ns" and ?post = "tl (dropWhile ?P ns)"
  from find_lower_equiv[OF inv swo e] obtain c where
    c: "List.find (\<lambda>a. \<not> ?P a) ns = Some c" "c \<in> set ns"
       "equiv (comp_m s) (datum (mem s) c) ?v" by blast
  have "equiv (comp_m s) (datum (mem s) c) (datum (mem s) e)"
    using equiv_trans[OF swo c(3) equiv_sym[OF e(2)]] .
  from equiv_unique[OF inv c(2) e(1) this] have ce: "c = e" .
  from search_update_lower[OF inv swo, of ?v] obtain cur upd where
    su: "search_update (mem s) (\<lambda>x. comp_m s x ?v) (level s) (header s)
             (replicate (MAX_LEVEL + 1) None) = Some (cur, upd)"
       "forward_at (mem s) cur 0 = Some (List.find (\<lambda>a. \<not> ?P a) ns)"
       "length upd = MAX_LEVEL + 1"
       "\<forall>j \<le> level s. upd ! j = Some (trail (mem s) (header s) j ?pre)"
    by blast
  have ne_end: "\<not> it_eq pos (end_it s)" using pos by (simp add: it_eq_def end_it_def)
  have dr: "it_deref (mem s) pos = Some ?v" using pos by (simp add: it_deref_def deref_def)
  from node_of_inv[OF inv c(2)] obtain m where m: "mem s c = Some m" "data m = datum (mem s) c"
    by blast
  have ep: "erase_pos s pos = erase_node s c upd"
    unfolding erase_pos_def using ne_end dr su(1,2) c(1,3) m by (simp add: equiv_def)
  have split: "ns = ?pre @ c # ?post" "c \<notin> set ?pre" using find_lower_split[OF c(1)] by auto
  have inv': "jl_inv s (?pre @ c # ?post)" using inv split(1) by simp
  from erase_node_spec[OF inv' su(3,4)] obtain s' where s':
    "erase_node s c upd
       = Some (\<lparr>it_node = (case ?post of [] \<Rightarrow> None | y # _ \<Rightarrow> Some y),
                it_header = Some (header s)\<rparr>, s')"
    "jl_inv s' (?pre @ ?post)" "level_minimal s'"
    "\<forall>b. b \<noteq> c \<longrightarrow> datum (mem s') b = datum (mem s) b"
    "\<forall>b. b \<noteq> c \<longrightarrow> height (mem s') b = height (mem s) b"
    "mem s' c = None"
    "size_m s' = size_m s - 1" "header s' = header s" "comp_m s' = comp_m s"
    "rng s' = rng s" "level s' \<le> level s" by blast
  have suc: "successor ns c = (case ?post of [] \<Rightarrow> None | y # _ \<Rightarrow> Some y)"
    using successor_split[OF split(2), of ?post] split(1) by simp
  have rem: "remove1 c ns = ?pre @ ?post"
    using remove1_split[OF split(2), of ?post] split(1) by simp
  show ?thesis
    using ep s' suc rem ce by (intro exI[of _ s']) simp
qed

lemma find_key_present:
  assumes inv: "jl_inv s ns" and swo: "strict_weak_order (comp_m s)"
    and e: "e \<in> set ns" "equiv (comp_m s) (datum (mem s) e) k"
  shows "find_key s k = Some \<lparr>it_node = Some e, it_header = Some (header s)\<rparr>"
proof -
  from find_lower_equiv[OF inv swo e] obtain c where
    c: "List.find (\<lambda>a. \<not> comp_m s (datum (mem s) a) k) ns = Some c" "c \<in> set ns"
       "equiv (comp_m s) (datum (mem s) c) k" by blast
  have "equiv (comp_m s) (datum (mem s) c) (datum (mem s) e)"
    using equiv_trans[OF swo c(3) equiv_sym[OF e(2)]] .
  from equiv_unique[OF inv c(2) e(1) this] have ce: "c = e" .
  from search_lower[OF inv swo, of k] obtain cur where
    cur: "search (mem s) (\<lambda>x. comp_m s x k) (level s) (header s) = Some cur"
      "forward_at (mem s) cur 0 = Some (List.find (\<lambda>a. \<not> comp_m s (datum (mem s) a) k) ns)"
    by blast
  from node_of_inv[OF inv c(2)] obtain m where m: "mem s c = Some m" "data m = datum (mem s) c"
    by blast
  show ?thesis unfolding find_key_def using cur c m ce by (simp add: equiv_def)
qed

lemma find_key_absent:
  assumes inv: "jl_inv s ns" and swo: "strict_weak_order (comp_m s)"
    and ne: "\<forall>e\<in>set ns. \<not> equiv (comp_m s) (datum (mem s) e) k"
  shows "find_key s k = Some (end_it s)"
proof -
  let ?P = "\<lambda>a. comp_m s (datum (mem s) a) k"
  from search_lower[OF inv swo, of k] obtain cur where
    cur: "search (mem s) (\<lambda>x. comp_m s x k) (level s) (header s) = Some cur"
      "forward_at (mem s) cur 0 = Some (List.find (\<lambda>a. \<not> ?P a) ns)"
    by blast
  show ?thesis
  proof (cases "List.find (\<lambda>a. \<not> ?P a) ns")
    case None
    then show ?thesis unfolding find_key_def using cur by simp
  next
    case (Some c)
    then have cin: "c \<in> set ns" by (auto simp: find_Some_iff)
    from node_of_inv[OF inv cin] obtain m where m: "mem s c = Some m" "data m = datum (mem s) c"
      by blast
    from ne cin have "\<not> equiv (comp_m s) (datum (mem s) c) k" by blast
    then show ?thesis unfolding find_key_def using cur Some m by (auto simp: equiv_def)
  qed
qed

section \<open>Construction, iteration, clear\<close>

lemma jump_list_new_inv:
  assumes "jump_list_new h hd_addr d0 c g = Some s"
  shows "jl_inv s []" and "level_minimal s" and "comp_m s = c" and "header s = hd_addr"
    and "rng s = g"
proof -
  from assms have s: "s = \<lparr>mem = h(hd_addr \<mapsto> header_node d0), header = hd_addr, level = 0,
                 size_m = 0, comp_m = c, rng = g\<rparr>"
    by (auto simp: jump_list_new_def split: if_splits)
  have f: "\<And>i. i \<le> MAX_LEVEL \<Longrightarrow> forward_at (mem s) hd_addr i = Some None"
    by (simp add: s forward_at_def header_node_def del: replicate.simps)
  have hh: "height (mem s) hd_addr = MAX_LEVEL + 1"
    by (simp add: s height_def header_node_def del: replicate.simps)
  show "jl_inv s []"
    unfolding jl_inv_def using f hh by (simp add: s at_level_def)
  show "level_minimal s" by (simp add: s level_minimal_def)
  show "comp_m s = c" "header s = hd_addr" "rng s = g" by (simp_all add: s)
qed

lemma nodes_from_chain: "chain h 0 p xs \<Longrightarrow> nodes_from h p = Some xs"
proof (induction xs arbitrary: p)
  case Nil
  then show ?case by (subst nodes_from.simps) simp
next
  case (Cons x xs)
  then obtain q where q: "p = Some x" "forward_at h x 0 = Some q" "chain h 0 q xs"
    by (auto split: option.splits)
  from Cons.IH[OF q(3)] q show ?case by (subst nodes_from.simps) simp
qed

lemma level0_chain:
  assumes "jl_inv s ns"
  shows "\<exists>q. forward_at (mem s) (header s) 0 = Some q \<and> chain (mem s) 0 q ns"
proof -
  have l0: "at_level (mem s) 0 ns = ns" using assms by (auto simp: jl_inv_def at_level_def)
  have "chain (mem s) 0 (Some (header s)) (header s # at_level (mem s) 0 ns)"
    using assms unfolding jl_inv_def by blast
  then show ?thesis by (auto simp: l0 split: option.splits)
qed

lemma iter_nodes_inv: "jl_inv s ns \<Longrightarrow> iter_nodes s = Some ns"
  using level0_chain[of s ns] nodes_from_chain by (auto simp: iter_nodes_def begin_it_def)

lemma those_value_at:
  "\<forall>a\<in>set ns. 0 < height h a \<Longrightarrow> those (map (value_at h) ns) = Some (map (datum h) ns)"
proof (induction ns)
  case Nil
  show ?case by simp
next
  case (Cons a ns)
  from Cons.prems have "0 < height h a" by simp
  from height_pos_alloc[OF this] obtain n where "h a = Some n" by blast
  then have "value_at h a = Some (datum h a)" by (simp add: value_at_def datum_def)
  with Cons show ?case by simp
qed

lemma elements_inv: "jl_inv s ns \<Longrightarrow> elements s = Some (map (datum (mem s)) ns)"
proof -
  assume inv: "jl_inv s ns"
  then have "\<forall>a\<in>set ns. 0 < height (mem s) a" unfolding jl_inv_def by blast
  from those_value_at[OF this] iter_nodes_inv[OF inv] show ?thesis by (simp add: elements_def)
qed

lemma jl_inv_unique: "jl_inv s ns \<Longrightarrow> jl_inv s ms \<Longrightarrow> ns = ms"
  using iter_nodes_inv[of s ns] iter_nodes_inv[of s ms] by simp

lemma insert_value_created:
  assumes inv: "jl_inv s ns" and swo: "strict_weak_order (comp_m s)"
    and ne: "\<forall>e\<in>set ns. \<not> equiv (comp_m s) (datum (mem s) e) v"
    and fresh: "mem s a = None"
  shows "\<exists>s'. insert_value s v (Created a)
            = Some (Inr (\<lparr>it_node = Some a, it_header = Some (header s)\<rparr>, True), s') \<and>
          jl_inv s' (takeWhile (\<lambda>b. comp_m s (datum (mem s) b) v) ns @ a #
                     dropWhile (\<lambda>b. comp_m s (datum (mem s) b) v) ns) \<and>
          datum (mem s') a = v \<and>
          (\<forall>b. b \<noteq> a \<longrightarrow> datum (mem s') b = datum (mem s) b) \<and>
          (\<forall>b. b \<noteq> a \<longrightarrow> height (mem s') b = height (mem s) b) \<and>
          height (mem s') a = fst (randomLevel (rng s)) + 1 \<and>
          size_m s' = size_m s + 1 \<and> header s' = header s \<and> comp_m s' = comp_m s \<and>
          level s' = max (level s) (fst (randomLevel (rng s))) \<and>
          rng s' = snd (randomLevel (rng s))"
proof -
  let ?P = "\<lambda>b. comp_m s (datum (mem s) b) v"
  from insert_value_absent[OF inv swo ne, of "Created a"] obtain upd where
    u: "insert_value s v (Created a) = insert_new s v (Created a) upd"
       "length upd = MAX_LEVEL + 1"
       "\<forall>j \<le> level s. upd ! j = Some (trail (mem s) (header s) j (takeWhile ?P ns))"
       "\<forall>b\<in>set (dropWhile ?P ns). comp_m s v (datum (mem s) b)"
    by blast
  have inv': "jl_inv s (takeWhile ?P ns @ dropWhile ?P ns)" using inv by simp
  have rl: "randomLevel (rng s) = (fst (randomLevel (rng s)), snd (randomLevel (rng s)))" by simp
  from insert_new_created[OF inv' takeWhile_all u(4) u(2) u(3) rl fresh] u(1)
  show ?thesis by simp
qed

lemma insert_value_throws:
  assumes inv: "jl_inv s ns" and swo: "strict_weak_order (comp_m s)"
    and ne: "\<forall>e\<in>set ns. \<not> equiv (comp_m s) (datum (mem s) e) v"
  shows "insert_value s v AllocThrows
           = Some (Inl BadAlloc,
                   s\<lparr>level := (if fst (randomLevel (rng s)) > level s
                                then fst (randomLevel (rng s)) else level s),
                     rng := snd (randomLevel (rng s))\<rparr>)"
    and "mem s a = None \<Longrightarrow> insert_value s v (ConstructThrows a)
           = Some (Inl ConstructorThrew,
                   s\<lparr>level := (if fst (randomLevel (rng s)) > level s
                                then fst (randomLevel (rng s)) else level s),
                     rng := snd (randomLevel (rng s))\<rparr>)"
proof -
  let ?P = "\<lambda>b. comp_m s (datum (mem s) b) v"
  have inv': "jl_inv s (takeWhile ?P ns @ dropWhile ?P ns)" using inv by simp
  have rl: "randomLevel (rng s) = (fst (randomLevel (rng s)), snd (randomLevel (rng s)))" by simp
  from insert_value_absent[OF inv swo ne, of AllocThrows] obtain upd where
    u: "insert_value s v AllocThrows = insert_new s v AllocThrows upd"
       "length upd = MAX_LEVEL + 1"
       "\<forall>j \<le> level s. upd ! j = Some (trail (mem s) (header s) j (takeWhile ?P ns))"
    by blast
  from insert_new_throws(1)[OF inv' u(2) u(3) rl] u(1)
  show "insert_value s v AllocThrows
           = Some (Inl BadAlloc,
                   s\<lparr>level := (if fst (randomLevel (rng s)) > level s
                                then fst (randomLevel (rng s)) else level s),
                     rng := snd (randomLevel (rng s))\<rparr>)" by simp
  from insert_value_absent[OF inv swo ne, of "ConstructThrows a"] obtain upd' where
    u': "insert_value s v (ConstructThrows a) = insert_new s v (ConstructThrows a) upd'"
       "length upd' = MAX_LEVEL + 1"
       "\<forall>j \<le> level s. upd' ! j = Some (trail (mem s) (header s) j (takeWhile ?P ns))"
    by blast
  assume "mem s a = None"
  from insert_new_throws(2)[OF inv' u'(2) u'(3) rl this] u'(1)
  show "insert_value s v (ConstructThrows a)
           = Some (Inl ConstructorThrew,
                   s\<lparr>level := (if fst (randomLevel (rng s)) > level s
                                then fst (randomLevel (rng s)) else level s),
                     rng := snd (randomLevel (rng s))\<rparr>)" by simp
qed

lemma jl_inv_raise_level:
  assumes "jl_inv s ns" and "level s \<le> l" and "l \<le> MAX_LEVEL"
  shows "jl_inv (s\<lparr>level := l, rng := g\<rparr>) ns"
  using assms unfolding jl_inv_def by simp

lemma forward_at_fun_upd_None_other: "b \<noteq> a \<Longrightarrow> forward_at (h(a := None)) b i = forward_at h b i"
  by (simp add: forward_at_def)

lemma clear_loop_chain:
  assumes "chain h 0 p xs" and "distinct xs" and "hdr \<notin> set xs"
  shows "clear_loop h hdr p = Some (\<lambda>b. if b \<in> set xs then None else h b)"
  using assms
proof (induction xs arbitrary: h p)
  case Nil
  then show ?case by (subst clear_loop.simps) simp
next
  case (Cons x xs)
  then obtain q where q: "p = Some x" "forward_at h x 0 = Some q" "chain h 0 q xs"
    by (auto split: option.splits)
  from forward_at_Some_node[OF q(2)] have hx: "h x \<noteq> None" by auto
  have xh: "x \<noteq> hdr" using Cons.prems(3) by auto
  have dn: "destroyNode h hdr (Some x) = Some (h(x := None))"
    using hx xh by (simp add: destroyNode_def)
  have "chain (h(x := None)) 0 q xs = chain h 0 q xs"
  proof (rule chain_frame)
    fix b assume "b \<in> set xs"
    with Cons.prems(2) have "b \<noteq> x" by auto
    then show "forward_at (h(x := None)) b 0 = forward_at h b 0"
      by (rule forward_at_fun_upd_None_other)
  qed
  with q(3) have c': "chain (h(x := None)) 0 q xs" by simp
  have dx: "distinct xs" "hdr \<notin> set xs" using Cons.prems by auto
  have "clear_loop (h(x := None)) hdr q
        = Some (\<lambda>b. if b \<in> set xs then None else (h(x := None)) b)"
    by (rule Cons.IH[OF c' dx])
  moreover have "(\<lambda>b. if b \<in> set xs then None else (h(x := None)) b)
        = (\<lambda>b. if b \<in> set (x # xs) then None else h b)"
    by (rule ext) simp
  ultimately show ?case using q dn by (subst clear_loop.simps) simp
qed

lemma reset_header_loop:
  assumes "height h hdr = MAX_LEVEL + 1"
  shows "\<exists>m. for_loop [0 ..< Suc MAX_LEVEL] (\<lambda>i m. set_forward m hdr i None) h = Some m \<and>
           height m hdr = MAX_LEVEL + 1 \<and>
           (\<forall>j \<le> MAX_LEVEL. forward_at m hdr j = Some None) \<and>
           (\<forall>b. b \<noteq> hdr \<longrightarrow> m b = h b)"
proof -
  let ?I = "\<lambda>i m. height m hdr = MAX_LEVEL + 1 \<and> (\<forall>j<i. forward_at m hdr j = Some None) \<and>
                  (\<forall>b. b \<noteq> hdr \<longrightarrow> m b = h b)"
  have "\<exists>m. for_loop [0 ..< Suc MAX_LEVEL] (\<lambda>i m. set_forward m hdr i None) h = Some m \<and>
           ?I (Suc MAX_LEVEL) m"
  proof (rule for_loop_upt_rule[where I = ?I])
    show "?I 0 h" using assms by simp
    show "0 \<le> Suc MAX_LEVEL" by simp
  next
    fix i y assume i: "0 \<le> i" "i < Suc MAX_LEVEL" and I: "?I i y"
    then have "i < height y hdr" by simp
    from set_forward_defined[OF this] obtain y' where y': "set_forward y hdr i None = Some y'"
      by blast
    have "\<forall>b. b \<noteq> hdr \<longrightarrow> y' b = y b"
      using y' by (auto simp: set_forward_def split: option.splits if_splits)
    then have "?I (Suc i) y'"
      using I set_forward_height[OF y'] set_forward_forward_at[OF y'] by (auto simp: less_Suc_eq)
    with y' show "\<exists>y'. set_forward y hdr i None = Some y' \<and> ?I (Suc i) y'" by blast
  qed
  then show ?thesis by (auto simp: less_Suc_eq_le)
qed

lemma clear_spec:
  assumes inv: "jl_inv s ns"
  shows "\<exists>s'. clear s = Some s' \<and> jl_inv s' [] \<and> level_minimal s' \<and>
           header s' = header s \<and> comp_m s' = comp_m s \<and> rng s' = rng s \<and> size_m s' = 0 \<and>
           (\<forall>b\<in>set ns. mem s' b = None)"
proof -
  let ?h = "mem s" and ?hdr = "header s"
  from level0_chain[OF inv] obtain q where
    q: "forward_at ?h ?hdr 0 = Some q" "chain ?h 0 q ns" by blast
  have d: "distinct ns" "?hdr \<notin> set ns" "height ?h ?hdr = MAX_LEVEL + 1"
    using inv unfolding jl_inv_def by blast+
  define h1 where "h1 = (\<lambda>b. if b \<in> set ns then None else ?h b)"
  have cl: "clear_loop ?h ?hdr q = Some h1"
    unfolding h1_def by (rule clear_loop_chain[OF q(2) d(1,2)])
  have "height h1 ?hdr = MAX_LEVEL + 1" using d(2,3) by (simp add: h1_def height_def)
  from reset_header_loop[OF this] obtain h2 where h2:
    "for_loop [0 ..< Suc MAX_LEVEL] (\<lambda>i m. set_forward m ?hdr i None) h1 = Some h2"
    "height h2 ?hdr = MAX_LEVEL + 1" "\<forall>j \<le> MAX_LEVEL. forward_at h2 ?hdr j = Some None"
    "\<forall>b. b \<noteq> ?hdr \<longrightarrow> h2 b = h1 b" by blast
  have "0 < height h2 ?hdr" using h2(2) by simp
  from set_backward_defined[OF this] obtain h3 where h3: "set_backward h2 ?hdr None = Some h3"
    by blast
  define s' where "s' = s\<lparr>mem := h3, level := 0, size_m := 0\<rparr>"
  have res: "clear s = Some s'"
    unfolding clear_def s'_def using q(1) cl h2(1) h3 by simp
  have f3: "\<And>i. i \<le> MAX_LEVEL \<Longrightarrow> forward_at h3 ?hdr i = Some None"
    using h2(3) set_backward_forward_at[OF h3] by simp
  have inv': "jl_inv s' []"
    unfolding jl_inv_def using f3 h2(2) set_backward_height[OF h3]
    by (simp add: s'_def at_level_def)
  have lm: "level_minimal s'" by (simp add: level_minimal_def s'_def)
  have gone: "\<forall>b\<in>set ns. mem s' b = None"
  proof
    fix b assume b: "b \<in> set ns"
    with d(2) have "b \<noteq> ?hdr" by auto
    with h2(4) b have "h2 b = None" by (simp add: h1_def)
    then have "h3 b = None" using set_backward_alloc[OF h3, of b] by simp
    then show "mem s' b = None" by (simp add: s'_def)
  qed
  from res inv' lm gone show ?thesis by (intro exI[of _ s']) (simp add: s'_def)
qed

section \<open>erase by key, equal\_range, empty range\<close>

lemma erase_key_present:
  assumes inv: "jl_inv s ns" and swo: "strict_weak_order (comp_m s)"
    and e: "e \<in> set ns" "equiv (comp_m s) (datum (mem s) e) k"
  shows "\<exists>s'. erase_key s k = Some (1, s') \<and>
          jl_inv s' (remove1 e ns) \<and> level_minimal s' \<and>
          (\<forall>b. b \<noteq> e \<longrightarrow> datum (mem s') b = datum (mem s) b) \<and>
          mem s' e = None \<and>
          size_m s' = size_m s - 1 \<and> header s' = header s \<and> comp_m s' = comp_m s \<and>
          rng s' = rng s \<and>
          find_key s' k = Some (end_it s')"
proof -
  let ?it = "\<lparr>it_node = Some e, it_header = Some (header s)\<rparr>"
  have fk: "find_key s k = Some ?it" by (rule find_key_present[OF inv swo e])
  from node_of_inv[OF inv e(1)] obtain n where n: "mem s e = Some n" "data n = datum (mem s) e"
    by blast
  have ee: "equiv (comp_m s) (datum (mem s) e) (data n)"
    using equiv_refl[OF swo] n(2) by simp
  from erase_pos_present[OF inv swo _ n(1) e(1) ee, of ?it] obtain r s' where s':
    "erase_pos s ?it = Some (r, s')"
    "jl_inv s' (remove1 e ns)" "level_minimal s'"
    "\<forall>b. b \<noteq> e \<longrightarrow> datum (mem s') b = datum (mem s) b"
    "mem s' e = None"
    "size_m s' = size_m s - 1" "header s' = header s" "comp_m s' = comp_m s"
    "rng s' = rng s" by auto
  have ek: "erase_key s k = Some (1, s')"
    unfolding erase_key_def using fk s'(1) by (simp add: it_eq_def end_it_def)
  have dist: "distinct ns" using inv by (simp add: jl_inv_def)
  have "\<forall>b\<in>set (remove1 e ns). \<not> equiv (comp_m s') (datum (mem s') b) k"
  proof
    fix b assume b: "b \<in> set (remove1 e ns)"
    then have bn: "b \<in> set ns" "b \<noteq> e" using dist by auto
    show "\<not> equiv (comp_m s') (datum (mem s') b) k"
    proof
      assume "equiv (comp_m s') (datum (mem s') b) k"
      then have "equiv (comp_m s) (datum (mem s) b) k" using s'(4,8) bn(2) by simp
      from equiv_trans[OF swo this equiv_sym[OF e(2)]]
      have "equiv (comp_m s) (datum (mem s) b) (datum (mem s) e)" .
      from equiv_unique[OF inv bn(1) e(1) this] bn(2) show False by simp
    qed
  qed
  moreover have "strict_weak_order (comp_m s')" using swo s'(8) by simp
  ultimately have "find_key s' k = Some (end_it s')"
    using find_key_absent[OF s'(2)] by blast
  with ek s' show ?thesis by blast
qed

lemma erase_key_absent:
  assumes inv: "jl_inv s ns" and swo: "strict_weak_order (comp_m s)"
    and ne: "\<forall>e\<in>set ns. \<not> equiv (comp_m s) (datum (mem s) e) k"
  shows "erase_key s k = Some (0, s)"
  unfolding erase_key_def using find_key_absent[OF inv swo ne] by (simp add: it_eq_def)

lemma it_next_successor:
  assumes inv: "jl_inv s ns" and e: "e \<in> set ns"
  shows "it_next (mem s) \<lparr>it_node = Some e, it_header = hp\<rparr>
         = Some \<lparr>it_node = successor ns e, it_header = hp\<rparr>"
proof -
  from split_list_first[OF e] obtain pre post where sp: "ns = pre @ e # post" "e \<notin> set pre"
    by blast
  from level0_chain[OF inv] obtain q where q: "chain (mem s) 0 q (pre @ e # post)"
    using sp(1) by auto
  from chain_next[OF q] successor_split[OF sp(2), of post] sp(1)
  show ?thesis by (simp add: it_next_def)
qed

lemma equal_range_present:
  assumes inv: "jl_inv s ns" and swo: "strict_weak_order (comp_m s)"
    and e: "e \<in> set ns" "equiv (comp_m s) (datum (mem s) e) k"
  shows "equal_range s k
         = Some (\<lparr>it_node = Some e, it_header = Some (header s)\<rparr>,
                 \<lparr>it_node = successor ns e, it_header = Some (header s)\<rparr>)"
  unfolding equal_range_def
  using find_key_present[OF inv swo e] it_next_successor[OF inv e(1)]
  by (simp add: it_eq_def end_it_def)

lemma equal_range_absent:
  assumes inv: "jl_inv s ns" and swo: "strict_weak_order (comp_m s)"
    and ne: "\<forall>e\<in>set ns. \<not> equiv (comp_m s) (datum (mem s) e) k"
  shows "equal_range s k = Some (end_it s, end_it s)"
  unfolding equal_range_def using find_key_absent[OF inv swo ne] by (simp add: it_eq_def)

lemma erase_range_empty: "erase_range s it it = Some (end_it s, s)"
  unfolding erase_range_def by (subst erase_range_loop.simps) (simp add: it_eq_def)

section \<open>Every public operation keeps the invariant\<close>

lemma insert_new_occupied:
  assumes "mem s a \<noteq> None"
  shows "insert_new s v (Created a) upd = None" and "insert_new s v (ConstructThrows a) upd = None"
proof -
  obtain nl g where rl: "randomLevel (rng s) = (nl, g)" by (cases "randomLevel (rng s)")
  show "insert_new s v (Created a) upd = None"
    unfolding insert_new_def using rl assms
    by (cases "raise_trail upd (header s) (level s) nl") (simp_all add: createNode_def)
  show "insert_new s v (ConstructThrows a) upd = None"
    unfolding insert_new_def using rl assms
    by (cases "raise_trail upd (header s) (level s) nl") (simp_all add: createNode_def)
qed

lemma insert_value_inv:
  assumes inv: "jl_inv s ns" and swo: "strict_weak_order (comp_m s)"
    and res: "insert_value s v out = Some (r, s')"
  shows "(\<exists>ns'. jl_inv s' ns') \<and> comp_m s' = comp_m s \<and> header s' = header s"
proof (cases "\<exists>e\<in>set ns. equiv (comp_m s) (datum (mem s) e) v")
  case True
  then obtain e where e: "e \<in> set ns" "equiv (comp_m s) (datum (mem s) e) v" by blast
  from insert_value_existing[OF inv swo e, of out] res have "s' = s" by auto
  with inv show ?thesis by blast
next
  case False
  then have ne: "\<forall>e\<in>set ns. \<not> equiv (comp_m s) (datum (mem s) e) v" by blast
  let ?nl = "fst (randomLevel (rng s))"
  have nlM: "?nl \<le> MAX_LEVEL" by (rule randomLevel_le[of "rng s" _ "snd (randomLevel (rng s))"]) simp
  have lvM: "level s \<le> MAX_LEVEL" using inv by (simp add: jl_inv_def)
  have raised: "\<exists>ns'. jl_inv (s\<lparr>level := (if ?nl > level s then ?nl else level s),
                     rng := snd (randomLevel (rng s))\<rparr>) ns'"
    using jl_inv_raise_level[OF inv, of "if ?nl > level s then ?nl else level s"] nlM lvM
    by (intro exI[of _ ns]) simp
  from insert_value_absent[OF inv swo ne, of out] obtain upd where
    u: "insert_value s v out = insert_new s v out upd" by blast
  show ?thesis
  proof (cases out)
    case AllocThrows
    with insert_value_throws(1)[OF inv swo ne] res raised show ?thesis by auto
  next
    case (ConstructThrows a)
    show ?thesis
    proof (cases "mem s a = None")
      case True
      with insert_value_throws(2)[OF inv swo ne True] ConstructThrows res raised
      show ?thesis by auto
    next
      case False
      with insert_new_occupied(2)[of s a v upd] u ConstructThrows res show ?thesis by simp
    qed
  next
    case (Created a)
    show ?thesis
    proof (cases "mem s a = None")
      case True
      from insert_value_created[OF inv swo ne True] Created res show ?thesis by auto
    next
      case False
      with insert_new_occupied(1)[of s a v upd] u Created res show ?thesis by simp
    qed
  qed
qed

lemma erase_pos_inv:
  assumes inv: "jl_inv s ns" and swo: "strict_weak_order (comp_m s)"
    and res: "erase_pos s pos = Some (r, s')"
  shows "(\<exists>ns'. jl_inv s' ns') \<and> comp_m s' = comp_m s \<and> header s' = header s"
proof (cases "it_node pos")
  case None
  then have "erase_pos s pos = Some (end_it s, s)"
    by (simp add: erase_pos_def it_eq_def end_it_def)
  with res inv show ?thesis by auto
next
  case (Some p)
  show ?thesis
  proof (cases "mem s p")
    case None
    with Some have "erase_pos s pos = None"
      by (simp add: erase_pos_def it_eq_def end_it_def it_deref_def deref_def)
    with res show ?thesis by simp
  next
    case (Some n)
    show ?thesis
    proof (cases "\<exists>e\<in>set ns. equiv (comp_m s) (datum (mem s) e) (data n)")
      case True
      then obtain e where e: "e \<in> set ns" "equiv (comp_m s) (datum (mem s) e) (data n)" by blast
      from erase_pos_present[OF inv swo \<open>it_node pos = Some p\<close> Some e] res
      show ?thesis by auto
    next
      case False
      then have "\<forall>e\<in>set ns. \<not> equiv (comp_m s) (datum (mem s) e) (data n)" by blast
      from erase_pos_absent[OF inv swo \<open>it_node pos = Some p\<close> Some this] res inv
      show ?thesis by auto
    qed
  qed
qed

lemma erase_key_inv:
  assumes inv: "jl_inv s ns" and swo: "strict_weak_order (comp_m s)"
    and res: "erase_key s k = Some (r, s')"
  shows "(\<exists>ns'. jl_inv s' ns') \<and> comp_m s' = comp_m s \<and> header s' = header s"
proof (cases "\<exists>e\<in>set ns. equiv (comp_m s) (datum (mem s) e) k")
  case True
  then obtain e where e: "e \<in> set ns" "equiv (comp_m s) (datum (mem s) e) k" by blast
  from erase_key_present[OF inv swo e] res show ?thesis by auto
next
  case False
  then have "\<forall>e\<in>set ns. \<not> equiv (comp_m s) (datum (mem s) e) k" by blast
  from erase_key_absent[OF inv swo this] res inv show ?thesis by auto
qed

lemma erase_range_loop_inv:
  assumes "erase_range_loop s first last_it result = Some y"
  shows "strict_weak_order (comp_m s) \<longrightarrow> (\<exists>ns. jl_inv s ns) \<longrightarrow>
         (\<exists>ns'. jl_inv (snd y) ns') \<and> comp_m (snd y) = comp_m s \<and> header (snd y) = header s"
proof (rule erase_range_loop.raw_induct[where P = "\<lambda>s first last_it result y.
         strict_weak_order (comp_m s) \<longrightarrow> (\<exists>ns. jl_inv s ns) \<longrightarrow>
         (\<exists>ns'. jl_inv (snd y) ns') \<and> comp_m (snd y) = comp_m s \<and> header (snd y) = header s",
       OF _ assms])
  fix f :: "'a jump_list \<Rightarrow> iterator \<Rightarrow> iterator \<Rightarrow> iterator \<Rightarrow> (iterator \<times> 'a jump_list) option"
  fix s first last_it result y
  assume IH: "\<And>s first last_it result y. f s first last_it result = Some y \<Longrightarrow>
         strict_weak_order (comp_m s) \<longrightarrow> (\<exists>ns. jl_inv s ns) \<longrightarrow>
         (\<exists>ns'. jl_inv (snd y) ns') \<and> comp_m (snd y) = comp_m s \<and> header (snd y) = header s"
    and body: "(if it_eq first last_it then Some (result, s)
      else it_next (mem s) first \<bind>
           (\<lambda>nxt. erase_pos s first \<bind> (\<lambda>rs. f (snd rs) nxt last_it (fst rs)))) = Some y"
  show "strict_weak_order (comp_m s) \<longrightarrow> (\<exists>ns. jl_inv s ns) \<longrightarrow>
         (\<exists>ns'. jl_inv (snd y) ns') \<and> comp_m (snd y) = comp_m s \<and> header (snd y) = header s"
  proof (intro impI)
    assume swo: "strict_weak_order (comp_m s)" and ex: "\<exists>ns. jl_inv s ns"
    then obtain ns where inv: "jl_inv s ns" by blast
    show "(\<exists>ns'. jl_inv (snd y) ns') \<and> comp_m (snd y) = comp_m s \<and> header (snd y) = header s"
    proof (cases "it_eq first last_it")
      case True
      with body have "y = (result, s)" by simp
      with inv show ?thesis by auto
    next
      case False
      with body obtain nxt rs where
        st: "it_next (mem s) first = Some nxt" "erase_pos s first = Some rs"
            "f (snd rs) nxt last_it (fst rs) = Some y"
        by (auto simp: bind_eq_Some_conv)
      from erase_pos_inv[OF inv swo, of first "fst rs" "snd rs"] st(2)
      have a: "\<exists>ns'. jl_inv (snd rs) ns'" "comp_m (snd rs) = comp_m s"
        "header (snd rs) = header s" by auto
      from IH[OF st(3)] a swo show ?thesis by simp
    qed
  qed
qed

lemma apply_operation_inv:
  assumes inv: "jl_inv s ns" and swo: "strict_weak_order (comp_m s)"
    and res: "apply_operation s x = Some s'"
  shows "(\<exists>ns'. jl_inv s' ns') \<and> comp_m s' = comp_m s \<and> header s' = header s"
proof (cases x)
  case (Insert v out)
  with res obtain r where "insert_value s v out = Some (r, s')" by auto
  from insert_value_inv[OF inv swo this] show ?thesis .
next
  case (EraseAt pos)
  with res obtain r where "erase_pos s pos = Some (r, s')" by auto
  from erase_pos_inv[OF inv swo this] show ?thesis .
next
  case (EraseKey k)
  with res obtain r where "erase_key s k = Some (r, s')" by auto
  from erase_key_inv[OF inv swo this] show ?thesis .
next
  case (EraseRange f l)
  with res obtain r where "erase_range_loop s f l (end_it s) = Some (r, s')"
    by (auto simp: erase_range_def)
  from erase_range_loop_inv[OF this] inv swo show ?thesis by auto
next
  case Clear
  with res clear_spec[OF inv] show ?thesis by auto
qed

lemma run_inv:
  assumes "run s xs = Some s'" and "jl_inv s ns" and "strict_weak_order (comp_m s)"
  shows "(\<exists>ns'. jl_inv s' ns') \<and> comp_m s' = comp_m s \<and> header s' = header s"
  using assms
proof (induction xs arbitrary: s ns)
  case Nil
  then show ?case by auto
next
  case (Cons x xs)
  from Cons.prems(1) obtain s1 where s1: "apply_operation s x = Some s1" "run s1 xs = Some s'"
    by (auto simp: bind_eq_Some_conv)
  from apply_operation_inv[OF Cons.prems(2,3) s1(1)] obtain ns1 where
    a: "jl_inv s1 ns1" "comp_m s1 = comp_m s" "header s1 = header s" by blast
  from Cons.IH[OF s1(2) a(1)] a Cons.prems(3) show ?case by simp
qed

section \<open>Whole-container comparison\<close>

lemma chain_head_value:
  assumes "chain h 0 p (x # xs)"
  shows "it_node i = p \<Longrightarrow> it_deref h i = Some (datum h x)"
    and "it_node i = p \<Longrightarrow> \<exists>q. it_next h i = Some (i\<lparr>it_node := q\<rparr>) \<and> chain h 0 q xs"
proof -
  from assms obtain q where q: "p = Some x" "forward_at h x 0 = Some q" "chain h 0 q xs"
    by (auto split: option.splits)
  from forward_at_Some_node[OF q(2)] obtain n where n: "h x = Some n" "datum h x = data n"
    by blast
  show "it_node i = p \<Longrightarrow> it_deref h i = Some (datum h x)"
    using q n by (simp add: it_deref_def deref_def)
  show "it_node i = p \<Longrightarrow> \<exists>q. it_next h i = Some (i\<lparr>it_node := q\<rparr>) \<and> chain h 0 q xs"
    using q by (auto simp: it_next_def)
qed

lemma std_equal_chain:
  assumes "chain h1 0 (it_node i1) xs" and "chain h2 0 (it_node i2) ys"
    and "length xs = length ys" and "it_node e1 = None"
  shows "std_equal eq h1 i1 e1 h2 i2
         = Some (list_all2 eq (map (datum h1) xs) (map (datum h2) ys))"
  using assms(1,2,3)
proof (induction xs arbitrary: ys i1 i2)
  case Nil
  then have "it_eq i1 e1" using assms(4) by (simp add: it_eq_def)
  with Nil show ?case by (subst std_equal.simps) simp
next
  case (Cons x xs)
  then obtain y ys' where ys: "ys = y # ys'" by (cases ys) auto
  have ne: "\<not> it_eq i1 e1" using Cons.prems(1) assms(4) by (auto simp: it_eq_def)
  note c1 = chain_head_value[OF Cons.prems(1), of i1]
  note c2 = chain_head_value[OF Cons.prems(2)[unfolded ys], of i2]
  from c1(2) obtain q1 where q1: "it_next h1 i1 = Some (i1\<lparr>it_node := q1\<rparr>)" "chain h1 0 q1 xs"
    by auto
  from c2(2) obtain q2 where q2: "it_next h2 i2 = Some (i2\<lparr>it_node := q2\<rparr>)" "chain h2 0 q2 ys'"
    by auto
  have "std_equal eq h1 (i1\<lparr>it_node := q1\<rparr>) e1 h2 (i2\<lparr>it_node := q2\<rparr>)
        = Some (list_all2 eq (map (datum h1) xs) (map (datum h2) ys'))"
    using Cons.IH[of "i1\<lparr>it_node := q1\<rparr>" "i2\<lparr>it_node := q2\<rparr>" ys'] q1(2) q2(2) Cons.prems(3) ys
    by simp
  then show ?case
    using ne c1(1) c2(1) q1(1) q2(1) ys by (subst std_equal.simps) simp
qed

lemma std_lexicographical_compare_chain:
  assumes "chain h1 0 (it_node i1) xs" and "chain h2 0 (it_node i2) ys"
    and "it_node e1 = None" and "it_node e2 = None"
  shows "std_lexicographical_compare lt h1 i1 e1 h2 i2 e2
         = Some (lex_less lt (map (datum h1) xs) (map (datum h2) ys))"
  using assms(1,2)
proof (induction xs arbitrary: ys i1 i2)
  case Nil
  then have e: "it_eq i1 e1" using assms(3) by (simp add: it_eq_def)
  show ?case
  proof (cases ys)
    case Nil
    with Nil.prems have "it_eq i2 e2" using assms(4) by (simp add: it_eq_def)
    with e Nil show ?thesis by (subst std_lexicographical_compare.simps) simp
  next
    case (Cons y ys')
    with Nil.prems have "\<not> it_eq i2 e2" using assms(4) by (auto simp: it_eq_def)
    with e Cons show ?thesis by (subst std_lexicographical_compare.simps) simp
  qed
next
  case (Cons x xs)
  have ne: "\<not> it_eq i1 e1" using Cons.prems(1) assms(3) by (auto simp: it_eq_def)
  show ?case
  proof (cases ys)
    case Nil
    with Cons.prems have "it_eq i2 e2" using assms(4) by (simp add: it_eq_def)
    with ne Nil show ?thesis by (subst std_lexicographical_compare.simps) simp
  next
    case (Cons y ys')
    with Cons.prems have ne2: "\<not> it_eq i2 e2" using assms(4) by (auto simp: it_eq_def)
    note c1 = chain_head_value[OF Cons.prems(1), of i1]
    note c2 = chain_head_value[OF Cons.prems(2)[unfolded Cons], of i2]
    from c1(2) obtain q1 where q1: "it_next h1 i1 = Some (i1\<lparr>it_node := q1\<rparr>)" "chain h1 0 q1 xs"
      by auto
    from c2(2) obtain q2 where q2: "it_next h2 i2 = Some (i2\<lparr>it_node := q2\<rparr>)" "chain h2 0 q2 ys'"
      by auto
    have "std_lexicographical_compare lt h1 (i1\<lparr>it_node := q1\<rparr>) e1 h2 (i2\<lparr>it_node := q2\<rparr>) e2
        = Some (lex_less lt (map (datum h1) xs) (map (datum h2) ys'))"
      using Cons.IH[of "i1\<lparr>it_node := q1\<rparr>" "i2\<lparr>it_node := q2\<rparr>" ys'] q1(2) q2(2) by simp
    then show ?thesis
      using ne ne2 c1(1) c2(1) q1(1) q2(1) Cons
      by (subst std_lexicographical_compare.simps) simp
  qed
qed

lemma begin_it_inv:
  assumes "jl_inv s ns"
  shows "\<exists>b. begin_it s = Some b \<and> chain (mem s) 0 (it_node b) ns"
  using level0_chain[OF assms] by (auto simp: begin_it_def)

lemma size_eq_length:
  fixes n m :: nat
  assumes "n < 2 ^ 64" and "m < 2 ^ 64"
  shows "((of_nat n :: 64 word) = of_nat m) = (n = m)"
proof
  assume "(of_nat n :: 64 word) = of_nat m"
  then have "unat (of_nat n :: 64 word) = unat (of_nat m :: 64 word)" by simp
  then show "n = m" using assms by (simp add: unat_of_nat take_bit_nat_eq_self)
qed simp

lemma jl_equal_spec:
  assumes l: "jl_inv lhs xs" and r: "jl_inv rhs ys"
    and bound: "length xs < 2 ^ 64" "length ys < 2 ^ 64"
  shows "jl_equal eq lhs rhs
         = Some (list_all2 eq (map (datum (mem lhs)) xs) (map (datum (mem rhs)) ys))"
proof -
  have sz: "size_m lhs = of_nat (length xs)" "size_m rhs = of_nat (length ys)"
    using l r by (auto simp: jl_inv_def)
  have se: "(size_m lhs = size_m rhs) = (length xs = length ys)"
    unfolding sz by (rule size_eq_length[OF bound])
  show ?thesis
  proof (cases "length xs = length ys")
    case True
    from begin_it_inv[OF l] obtain b1 where b1: "begin_it lhs = Some b1"
      "chain (mem lhs) 0 (it_node b1) xs" by blast
    from begin_it_inv[OF r] obtain b2 where b2: "begin_it rhs = Some b2"
      "chain (mem rhs) 0 (it_node b2) ys" by blast
    have "it_node (end_it lhs) = None" by (simp add: end_it_def)
    from std_equal_chain[OF b1(2) b2(2) True this, of eq] b1(1) b2(1) se True
    show ?thesis by (simp add: jl_equal_def)
  next
    case False
    then have "\<not> list_all2 eq (map (datum (mem lhs)) xs) (map (datum (mem rhs)) ys)"
      by (auto dest: list_all2_lengthD)
    with False se show ?thesis by (simp add: jl_equal_def)
  qed
qed

lemma jl_less_spec:
  assumes l: "jl_inv lhs xs" and r: "jl_inv rhs ys"
  shows "jl_less lt lhs rhs
         = Some (lex_less lt (map (datum (mem lhs)) xs) (map (datum (mem rhs)) ys))"
proof -
  from begin_it_inv[OF l] obtain b1 where b1: "begin_it lhs = Some b1"
    "chain (mem lhs) 0 (it_node b1) xs" by blast
  from begin_it_inv[OF r] obtain b2 where b2: "begin_it rhs = Some b2"
    "chain (mem rhs) 0 (it_node b2) ys" by blast
  have e: "it_node (end_it lhs) = None" "it_node (end_it rhs) = None" by (simp_all add: end_it_def)
  from std_lexicographical_compare_chain[OF b1(2) b2(2) e, of lt] b1(1) b2(1)
  show ?thesis by (simp add: jl_less_def)
qed

lemma lex_less_lexord:
  assumes tri: "\<And>x y. x \<noteq> y \<Longrightarrow> lt x y \<or> lt y x"
    and asym: "\<And>x y. lt x y \<Longrightarrow> \<not> lt y x"
  shows "lex_less lt xs ys = ((xs, ys) \<in> lexord {(x, y). lt x y})"
proof (induction xs arbitrary: ys)
  case Nil
  show ?case by (cases ys) simp_all
next
  case (Cons x xs)
  show ?case
  proof (cases ys)
    case Nil
    then show ?thesis by simp
  next
    case (Cons y ys')
    have "(\<not> lt x y \<and> \<not> lt y x) = (x = y)" using tri asym by blast
    then show ?thesis using Cons Cons.IH[of ys'] asym by auto
  qed
qed

section \<open>Range erase and definedness of the operations\<close>

lemma erase_range_loop_spec:
  assumes swo: "strict_weak_order c"
  shows "jl_inv s (A @ seg @ B) \<Longrightarrow> comp_m s = c \<Longrightarrow>
         it_node first = node_or_end (seg @ B) \<Longrightarrow> it_node last_it = node_or_end B \<Longrightarrow>
         \<exists>s'. erase_range_loop s first last_it res
                = Some (if seg = [] then res
                        else \<lparr>it_node = node_or_end B, it_header = Some (header s)\<rparr>, s') \<and>
              jl_inv s' (A @ B) \<and> comp_m s' = c \<and> header s' = header s \<and>
              size_m s' = size_m s - of_nat (length seg) \<and>
              (\<forall>b\<in>set (A @ B). datum (mem s') b = datum (mem s) b)"
proof (induction seg arbitrary: s first res)
  case Nil
  then have "it_eq first last_it" by (simp add: it_eq_def)
  with Nil show ?case by (subst erase_range_loop.simps) simp
next
  case (Cons p seg)
  let ?ns = "A @ (p # seg) @ B"
  have inv: "jl_inv s ?ns" by (rule Cons.prems(1))
  have swo': "strict_weak_order (comp_m s)" using swo Cons.prems(2) by simp
  have dist: "distinct ?ns" using inv by (simp add: jl_inv_def)
  have pin: "p \<in> set ?ns" by simp
  have pA: "p \<notin> set A" using dist by auto
  have fp: "it_node first = Some p" using Cons.prems(3) by (simp add: node_or_end_def)
  have "node_or_end B \<noteq> Some p" using dist by (cases B) (auto simp: node_or_end_def)
  then have ne: "\<not> it_eq first last_it" using fp Cons.prems(4) by (simp add: it_eq_def)
  have suc: "successor ?ns p = node_or_end (seg @ B)"
    using successor_split[OF pA, of "seg @ B"] by (simp add: node_or_end_def)
  have first_eq: "first = \<lparr>it_node = Some p, it_header = it_header first\<rparr>"
    using fp by (cases first) simp
  have nx: "it_next (mem s) first = Some \<lparr>it_node = node_or_end (seg @ B), it_header = it_header first\<rparr>"
    using it_next_successor[OF inv pin, of "it_header first"] suc first_eq by simp
  from node_of_inv[OF inv pin] obtain n where n: "mem s p = Some n" "data n = datum (mem s) p"
    by blast
  have pe: "equiv (comp_m s) (datum (mem s) p) (data n)" using equiv_refl[OF swo'] n(2) by simp
  from erase_pos_present[OF inv swo' fp n(1) pin pe] obtain s1 where s1:
    "erase_pos s first = Some (\<lparr>it_node = successor ?ns p, it_header = Some (header s)\<rparr>, s1)"
    "jl_inv s1 (remove1 p ?ns)" "\<forall>b. b \<noteq> p \<longrightarrow> datum (mem s1) b = datum (mem s) b"
    "size_m s1 = size_m s - 1" "header s1 = header s" "comp_m s1 = comp_m s" by blast
  have rem: "remove1 p ?ns = A @ seg @ B" using remove1_split[OF pA, of "seg @ B"] by simp
  have inv1: "jl_inv s1 (A @ seg @ B)" using s1(2) rem by simp
  have c1: "comp_m s1 = c" using s1(6) Cons.prems(2) by simp
  let ?nxt = "\<lparr>it_node = node_or_end (seg @ B), it_header = it_header first\<rparr>"
  let ?r1 = "\<lparr>it_node = node_or_end (seg @ B), it_header = Some (header s)\<rparr>"
  from Cons.IH[OF inv1 c1, of ?nxt ?r1] Cons.prems(4) obtain s' where s':
    "erase_range_loop s1 ?nxt last_it ?r1
       = Some (if seg = [] then ?r1
               else \<lparr>it_node = node_or_end B, it_header = Some (header s1)\<rparr>, s')"
    "jl_inv s' (A @ B)" "comp_m s' = c" "header s' = header s1"
    "size_m s' = size_m s1 - of_nat (length seg)"
    "\<forall>b\<in>set (A @ B). datum (mem s') b = datum (mem s1) b" by auto
  have r: "(if seg = [] then ?r1 else \<lparr>it_node = node_or_end B, it_header = Some (header s1)\<rparr>)
         = \<lparr>it_node = node_or_end B, it_header = Some (header s)\<rparr>"
    by (simp add: s1(5))
  have run: "erase_range_loop s first last_it res
         = Some (\<lparr>it_node = node_or_end B, it_header = Some (header s)\<rparr>, s')"
    using ne nx s1(1) s'(1) suc unfolding r
    by (subst erase_range_loop.simps) simp
  have dat: "\<forall>b\<in>set (A @ B). datum (mem s') b = datum (mem s) b"
  proof
    fix b assume b: "b \<in> set (A @ B)"
    then have "b \<noteq> p" using dist by auto
    with s1(3) s'(6) b show "datum (mem s') b = datum (mem s) b" by simp
  qed
  have sz: "size_m s' = size_m s - of_nat (length (p # seg))" using s'(5) s1(4) by simp
  from run s'(2,3,4) s1(5) sz dat show ?case by (intro exI[of _ s']) simp
qed

lemma erase_range_spec:
  assumes "jl_inv s (A @ seg @ B)" and "strict_weak_order (comp_m s)"
    and "it_node first = node_or_end (seg @ B)" and "it_node last_it = node_or_end B"
  shows "\<exists>s'. erase_range s first last_it
                = Some (\<lparr>it_node = (if seg = [] then None else node_or_end B),
                         it_header = Some (header s)\<rparr>, s') \<and>
              jl_inv s' (A @ B) \<and> comp_m s' = comp_m s \<and> header s' = header s \<and>
              size_m s' = size_m s - of_nat (length seg) \<and>
              (\<forall>b\<in>set (A @ B). datum (mem s') b = datum (mem s) b)"
  using erase_range_loop_spec[OF assms(2) assms(1) refl assms(3,4), of "end_it s"]
  by (auto simp: erase_range_def end_it_def)

lemma apply_operation_defined:
  assumes inv: "jl_inv s ns" and swo: "strict_weak_order (comp_m s)"
  shows "mem s a = None \<Longrightarrow> apply_operation s (Insert v (Created a)) \<noteq> None"
    and "mem s a = None \<Longrightarrow> apply_operation s (Insert v (ConstructThrows a)) \<noteq> None"
    and "apply_operation s (Insert v AllocThrows) \<noteq> None"
    and "it_node pos = None \<or> (\<exists>p n. it_node pos = Some p \<and> mem s p = Some n) \<Longrightarrow>
         apply_operation s (EraseAt pos) \<noteq> None"
    and "apply_operation s (EraseKey k) \<noteq> None"
    and "apply_operation s Clear \<noteq> None"
proof -
  have ins: "\<And>out. (\<And>a. out = Created a \<or> out = ConstructThrows a \<Longrightarrow> mem s a = None) \<Longrightarrow>
      insert_value s v out \<noteq> None"
  proof -
    fix out assume fr: "\<And>a. out = Created a \<or> out = ConstructThrows a \<Longrightarrow> mem s a = None"
    show "insert_value s v out \<noteq> None"
    proof (cases "\<exists>e\<in>set ns. equiv (comp_m s) (datum (mem s) e) v")
      case True
      then obtain e where "e \<in> set ns" "equiv (comp_m s) (datum (mem s) e) v" by blast
      from insert_value_existing[OF inv swo this, of out] show ?thesis by auto
    next
      case False
      then have ne: "\<forall>e\<in>set ns. \<not> equiv (comp_m s) (datum (mem s) e) v" by blast
      show ?thesis
      proof (cases out)
        case AllocThrows
        with insert_value_throws(1)[OF inv swo ne] show ?thesis by simp
      next
        case (ConstructThrows a)
        with insert_value_throws(2)[OF inv swo ne, of a] fr[of a] show ?thesis by simp
      next
        case (Created a)
        with insert_value_created[OF inv swo ne, of a] fr[of a] show ?thesis by auto
      qed
    qed
  qed
  show "mem s a = None \<Longrightarrow> apply_operation s (Insert v (Created a)) \<noteq> None"
    using ins[of "Created a"] by simp
  show "mem s a = None \<Longrightarrow> apply_operation s (Insert v (ConstructThrows a)) \<noteq> None"
    using ins[of "ConstructThrows a"] by simp
  show "apply_operation s (Insert v AllocThrows) \<noteq> None"
    using ins[of AllocThrows] by simp
  show "it_node pos = None \<or> (\<exists>p n. it_node pos = Some p \<and> mem s p = Some n) \<Longrightarrow>
         apply_operation s (EraseAt pos) \<noteq> None"
  proof -
    assume "it_node pos = None \<or> (\<exists>p n. it_node pos = Some p \<and> mem s p = Some n)"
    then show ?thesis
    proof
      assume "it_node pos = None"
      then show ?thesis by (simp add: erase_pos_def it_eq_def end_it_def)
    next
      assume "\<exists>p n. it_node pos = Some p \<and> mem s p = Some n"
      then obtain p n where pn: "it_node pos = Some p" "mem s p = Some n" by blast
      show ?thesis
      proof (cases "\<exists>e\<in>set ns. equiv (comp_m s) (datum (mem s) e) (data n)")
        case True
        then obtain e where "e \<in> set ns" "equiv (comp_m s) (datum (mem s) e) (data n)" by blast
        from erase_pos_present[OF inv swo pn this] show ?thesis by auto
      next
        case False
        then have "\<forall>e\<in>set ns. \<not> equiv (comp_m s) (datum (mem s) e) (data n)" by blast
        from erase_pos_absent[OF inv swo pn this] show ?thesis by simp
      qed
    qed
  qed
  show "apply_operation s (EraseKey k) \<noteq> None"
  proof (cases "\<exists>e\<in>set ns. equiv (comp_m s) (datum (mem s) e) k")
    case True
    then obtain e where "e \<in> set ns" "equiv (comp_m s) (datum (mem s) e) k" by blast
    from erase_key_present[OF inv swo this] show ?thesis by auto
  next
    case False
    then have "\<forall>e\<in>set ns. \<not> equiv (comp_m s) (datum (mem s) e) k" by blast
    from erase_key_absent[OF inv swo this] show ?thesis by simp
  qed
  show "apply_operation s Clear \<noteq> None" using clear_spec[OF inv] by auto
qed

lemma valid_operation_defined:
  assumes inv: "jl_inv s ns" and swo: "strict_weak_order (comp_m s)"
    and v: "valid_operation s x"
  shows "apply_operation s x \<noteq> None"
proof (cases x)
  case (Insert val out)
  with v apply_operation_defined(1,2,3)[OF inv swo] show ?thesis by (cases out) auto
next
  case (EraseAt pos)
  with v have "it_node pos = None \<or> (\<exists>p n. it_node pos = Some p \<and> mem s p = Some n)"
    by (auto split: option.splits)
  from apply_operation_defined(4)[OF inv swo this] EraseAt show ?thesis by simp
next
  case (EraseKey k)
  with apply_operation_defined(5)[OF inv swo] show ?thesis by simp
next
  case (EraseRange f l)
  with v obtain A seg B where r: "iter_nodes s = Some (A @ seg @ B)"
    "it_node f = node_or_end (seg @ B)" "it_node l = node_or_end B" by auto
  from iter_nodes_inv[OF inv] r(1) have "ns = A @ seg @ B" by simp
  with inv have "jl_inv s (A @ seg @ B)" by simp
  from erase_range_spec[OF this swo r(2,3)] EraseRange show ?thesis by auto
next
  case Clear
  with apply_operation_defined(6)[OF inv swo] show ?thesis by simp
qed

section \<open>The level is minimal unless an insert fails\<close>

lemma level_minimal_iff:
  assumes inv: "jl_inv s ns"
  shows "level_minimal s = (0 < level s \<longrightarrow> (\<exists>b\<in>set ns. level s < height (mem s) b))"
proof -
  have lv: "level s \<le> MAX_LEVEL" using inv by (simp add: jl_inv_def)
  have c: "chain (mem s) (level s) (Some (header s)) (header s # at_level (mem s) (level s) ns)"
    using inv lv unfolding jl_inv_def by blast
  have "(at_level (mem s) (level s) ns = []) = (\<not> (\<exists>b\<in>set ns. level s < height (mem s) b))"
    by (auto simp: at_level_def filter_empty_conv)
  with chain_header_none[OF c] show ?thesis by (auto simp: level_minimal_def)
qed

lemma insert_value_created_minimal:
  assumes inv: "jl_inv s ns" and swo: "strict_weak_order (comp_m s)"
    and lm: "level_minimal s"
    and res: "insert_value s v (Created a) = Some (r, s')"
  shows "level_minimal s'"
proof (cases "\<exists>e\<in>set ns. equiv (comp_m s) (datum (mem s) e) v")
  case True
  then obtain e where "e \<in> set ns" "equiv (comp_m s) (datum (mem s) e) v" by blast
  from insert_value_existing[OF inv swo this, of "Created a"] res lm show ?thesis by auto
next
  case False
  then have ne: "\<forall>e\<in>set ns. \<not> equiv (comp_m s) (datum (mem s) e) v" by blast
  let ?P = "\<lambda>b. comp_m s (datum (mem s) b) v"
  let ?nl = "fst (randomLevel (rng s))"
  show ?thesis
  proof (cases "mem s a = None")
    case False
    from insert_value_absent[OF inv swo ne, of "Created a"] obtain upd where
      "insert_value s v (Created a) = insert_new s v (Created a) upd" by blast
    with insert_new_occupied(1)[OF False, of v upd] res show ?thesis by simp
  next
    case True
    from insert_value_created[OF inv swo ne True] res have s':
      "jl_inv s' (takeWhile ?P ns @ a # dropWhile ?P ns)"
      "\<forall>b. b \<noteq> a \<longrightarrow> height (mem s') b = height (mem s) b"
      "height (mem s') a = ?nl + 1" "level s' = max (level s) ?nl" by auto
    have a_notin: "a \<notin> set ns"
    proof
      assume "a \<in> set ns"
      from node_of_inv[OF inv this] True show False by simp
    qed
    have "set (takeWhile ?P ns @ dropWhile ?P ns) = set ns" by (simp only: takeWhile_dropWhile_id)
    then have set': "set (takeWhile ?P ns @ a # dropWhile ?P ns) = insert a (set ns)"
      by (simp only: set_append list.set) blast
    have "0 < level s' \<longrightarrow> (\<exists>b\<in>insert a (set ns). level s' < height (mem s') b)"
    proof
      assume pos: "0 < level s'"
      show "\<exists>b\<in>insert a (set ns). level s' < height (mem s') b"
      proof (cases "level s \<le> ?nl")
        case True
        then have "level s' < height (mem s') a" using s'(3,4) by simp
        then show ?thesis by blast
      next
        case False
        then have l: "level s' = level s" using s'(4) by simp
        with pos lm level_minimal_iff[OF inv] obtain b where
          b: "b \<in> set ns" "level s < height (mem s) b" by auto
        with a_notin s'(2) have "level s' < height (mem s') b" using l by auto
        with b(1) show ?thesis by blast
      qed
    qed
    then show ?thesis
      unfolding level_minimal_iff[OF s'(1)] by (simp only: set')
  qed
qed

lemma erase_pos_minimal:
  assumes inv: "jl_inv s ns" and swo: "strict_weak_order (comp_m s)"
    and lm: "level_minimal s"
    and res: "erase_pos s pos = Some (r, s')"
  shows "level_minimal s'"
proof (cases "it_node pos")
  case None
  then have "erase_pos s pos = Some (end_it s, s)"
    by (simp add: erase_pos_def it_eq_def end_it_def)
  with res lm show ?thesis by auto
next
  case (Some p)
  show ?thesis
  proof (cases "mem s p")
    case None
    with Some have "erase_pos s pos = None"
      by (simp add: erase_pos_def it_eq_def end_it_def it_deref_def deref_def)
    with res show ?thesis by simp
  next
    case (Some n)
    show ?thesis
    proof (cases "\<exists>e\<in>set ns. equiv (comp_m s) (datum (mem s) e) (data n)")
      case True
      then obtain e where e: "e \<in> set ns" "equiv (comp_m s) (datum (mem s) e) (data n)" by blast
      from erase_pos_present[OF inv swo \<open>it_node pos = Some p\<close> Some e] res
      show ?thesis by auto
    next
      case False
      then have "\<forall>e\<in>set ns. \<not> equiv (comp_m s) (datum (mem s) e) (data n)" by blast
      from erase_pos_absent[OF inv swo \<open>it_node pos = Some p\<close> Some this] res lm
      show ?thesis by auto
    qed
  qed
qed

lemma erase_range_loop_minimal:
  assumes "erase_range_loop s first last_it result = Some y"
  shows "strict_weak_order (comp_m s) \<longrightarrow> (\<exists>ns. jl_inv s ns) \<longrightarrow> level_minimal s \<longrightarrow>
         level_minimal (snd y)"
proof (rule erase_range_loop.raw_induct[where P = "\<lambda>s first last_it result y.
         strict_weak_order (comp_m s) \<longrightarrow> (\<exists>ns. jl_inv s ns) \<longrightarrow> level_minimal s \<longrightarrow>
         level_minimal (snd y)", OF _ assms])
  fix f :: "'a jump_list \<Rightarrow> iterator \<Rightarrow> iterator \<Rightarrow> iterator \<Rightarrow> (iterator \<times> 'a jump_list) option"
  fix s first last_it result y
  assume IH: "\<And>s first last_it result y. f s first last_it result = Some y \<Longrightarrow>
         strict_weak_order (comp_m s) \<longrightarrow> (\<exists>ns. jl_inv s ns) \<longrightarrow> level_minimal s \<longrightarrow>
         level_minimal (snd y)"
    and body: "(if it_eq first last_it then Some (result, s)
      else it_next (mem s) first \<bind>
           (\<lambda>nxt. erase_pos s first \<bind> (\<lambda>rs. f (snd rs) nxt last_it (fst rs)))) = Some y"
  show "strict_weak_order (comp_m s) \<longrightarrow> (\<exists>ns. jl_inv s ns) \<longrightarrow> level_minimal s \<longrightarrow>
         level_minimal (snd y)"
  proof (intro impI)
    assume swo: "strict_weak_order (comp_m s)" and ex: "\<exists>ns. jl_inv s ns"
      and lm: "level_minimal s"
    then obtain ns where inv: "jl_inv s ns" by blast
    show "level_minimal (snd y)"
    proof (cases "it_eq first last_it")
      case True
      with body have "y = (result, s)" by simp
      with lm show ?thesis by simp
    next
      case False
      with body obtain nxt rs where
        st: "it_next (mem s) first = Some nxt" "erase_pos s first = Some rs"
            "f (snd rs) nxt last_it (fst rs) = Some y"
        by (auto simp: bind_eq_Some_conv)
      from erase_pos_inv[OF inv swo, of first "fst rs" "snd rs"] st(2)
      have a: "\<exists>ns'. jl_inv (snd rs) ns'" "comp_m (snd rs) = comp_m s" by auto
      from erase_pos_minimal[OF inv swo lm, of first "fst rs" "snd rs"] st(2)
      have "level_minimal (snd rs)" by simp
      with IH[OF st(3)] a swo show ?thesis by simp
    qed
  qed
qed

text \<open>
  Every operation other than an insert whose node creation throws keeps \<open>level\<close> minimal.
\<close>

lemma apply_operation_minimal:
  assumes inv: "jl_inv s ns" and swo: "strict_weak_order (comp_m s)"
    and lm: "level_minimal s"
    and res: "apply_operation s x = Some s'"
    and ok: "\<forall>v. x \<noteq> Insert v AllocThrows" "\<forall>v a. x \<noteq> Insert v (ConstructThrows a)"
  shows "level_minimal s'"
proof (cases x)
  case (Insert v out)
  with ok obtain a where out: "out = Created a" by (cases out) auto
  with Insert res obtain r where "insert_value s v (Created a) = Some (r, s')" by auto
  from insert_value_created_minimal[OF inv swo lm this] show ?thesis .
next
  case (EraseAt pos)
  with res obtain r where "erase_pos s pos = Some (r, s')" by auto
  from erase_pos_minimal[OF inv swo lm this] show ?thesis .
next
  case (EraseKey k)
  show ?thesis
  proof (cases "\<exists>e\<in>set ns. equiv (comp_m s) (datum (mem s) e) k")
    case True
    then obtain e where "e \<in> set ns" "equiv (comp_m s) (datum (mem s) e) k" by blast
    from erase_key_present[OF inv swo this] res EraseKey show ?thesis by auto
  next
    case False
    then have "\<forall>e\<in>set ns. \<not> equiv (comp_m s) (datum (mem s) e) k" by blast
    from erase_key_absent[OF inv swo this] res EraseKey lm show ?thesis by auto
  qed
next
  case (EraseRange f l)
  with res obtain r where "erase_range_loop s f l (end_it s) = Some (r, s')"
    by (auto simp: erase_range_def)
  from erase_range_loop_minimal[OF this] inv swo lm show ?thesis by auto
next
  case Clear
  with res clear_spec[OF inv] show ?thesis by auto
qed

text \<open>An insert that fails after sampling a level above the current one breaks it.\<close>

lemma insert_value_throws_not_minimal:
  assumes inv: "jl_inv s ns" and swo: "strict_weak_order (comp_m s)"
    and ne: "\<forall>e\<in>set ns. \<not> equiv (comp_m s) (datum (mem s) e) v"
    and up: "level s < fst (randomLevel (rng s))"
  shows "\<exists>s'. insert_value s v AllocThrows = Some (Inl BadAlloc, s') \<and>
           mem s' = mem s \<and> size_m s' = size_m s \<and> jl_inv s' ns \<and> \<not> level_minimal s'"
proof -
  let ?nl = "fst (randomLevel (rng s))"
  let ?s' = "s\<lparr>level := ?nl, rng := snd (randomLevel (rng s))\<rparr>"
  have r: "insert_value s v AllocThrows = Some (Inl BadAlloc, ?s')"
    using insert_value_throws(1)[OF inv swo ne] up by simp
  have nlM: "?nl \<le> MAX_LEVEL" by (rule randomLevel_le[of "rng s" _ "snd (randomLevel (rng s))"]) simp
  have inv': "jl_inv ?s' ns" using jl_inv_raise_level[OF inv _ nlM] up by simp
  have "forward_at (mem s) (header s) ?nl = Some None"
    using inv up nlM unfolding jl_inv_def by blast
  then have "\<not> level_minimal ?s'" using up by (simp add: level_minimal_def)
  with r inv' show ?thesis by (intro exI[of _ ?s']) simp
qed

section \<open>The concrete containers are well formed\<close>

lemma int_less_swo: "strict_weak_order ((<) :: int \<Rightarrow> int \<Rightarrow> bool)"
  by (auto simp: strict_weak_order_def)

lemma tens_less_swo: "strict_weak_order tens_less"
  by (auto simp: strict_weak_order_def tens_less_def)

lemma run_from_new:
  assumes new: "jump_list_new h a d c g = Some s0" and swo: "strict_weak_order c"
    and def: "\<not> Option.is_none (run s0 xs)"
    and it: "iter_nodes (the (run s0 xs)) = Some ns"
  shows "jl_inv (the (run s0 xs)) ns" and "comp_m (the (run s0 xs)) = c"
    and "header (the (run s0 xs)) = a" and "run s0 xs = Some (the (run s0 xs))"
proof -
  from def obtain s where s: "run s0 xs = Some s" by (auto simp: Option.is_none_def)
  have c0: "comp_m s0 = c" "header s0 = a" using jump_list_new_inv[OF new] by auto
  from run_inv[OF s jump_list_new_inv(1)[OF new]] swo c0
  obtain ns' where a: "jl_inv s ns'" "comp_m s = c" "header s = a" by auto
  from iter_nodes_inv[OF a(1)] it s have "ns' = ns" by simp
  with a s show "jl_inv (the (run s0 xs)) ns" "comp_m (the (run s0 xs)) = c"
    "header (the (run s0 xs)) = a" "run s0 xs = Some (the (run s0 xs))" by simp_all
qed

lemma ex_empty_new: "jump_list_new Map.empty 0 0 (<) ex_rng = Some ex_empty"
  by (simp add: ex_empty_def jump_list_new_def)

lemma ex_tens_new:
  "jump_list_new Map.empty 0 0 tens_less ex_rng
   = Some (the (jump_list_new Map.empty 0 0 tens_less ex_rng))"
  by (simp add: jump_list_new_def)

lemma ex_empty_inv: "jl_inv ex_empty []" "comp_m ex_empty = (<)" "header ex_empty = 0"
  using jump_list_new_inv[OF ex_empty_new] by auto

lemma ex_odd_defined: "\<not> Option.is_none (run ex_empty ex_odd_ops)"
  by code_simp

lemma ex_odd_nodes: "iter_nodes (the (run ex_empty ex_odd_ops)) = Some [11, 12, 13, 14, 15]"
  by code_simp

lemma ex_odd_inv:
  "jl_inv ex_odd [11, 12, 13, 14, 15]" "comp_m ex_odd = (<)" "header ex_odd = 0"
  using run_from_new[OF ex_empty_new int_less_swo ex_odd_defined ex_odd_nodes]
  by (simp_all add: ex_odd_def)

lemma ex_odd_data:
  "datum (mem ex_odd) 11 = 1" "datum (mem ex_odd) 12 = 3" "datum (mem ex_odd) 13 = 5"
  "datum (mem ex_odd) 14 = 7" "datum (mem ex_odd) 15 = 9"
  by code_simp+

lemma ex_odd_swo: "strict_weak_order (comp_m ex_odd)"
  by (simp add: ex_odd_inv int_less_swo)

lemma ex_odd_size: "size_m ex_odd = 5"
  by code_simp

lemma ex_odd_free: "mem ex_odd 20 = None"
  by code_simp

lemma ex_odd_header: "mem ex_odd 0 = Some \<lparr>data = 0, forward = forward (the (mem ex_odd 0)),
                                        backward = backward (the (mem ex_odd 0))\<rparr>"
  by code_simp

lemma ex_other_free: "mem ex_other 0 = None"
  by code_simp

lemma ex_shared_new:
  "jump_list_new (mem ex_other) 0 0 (<) ex_rng
   = Some (the (jump_list_new (mem ex_other) 0 0 (<) ex_rng))"
  by (simp add: jump_list_new_def ex_other_free)

lemma ex_shared_defined:
  "\<not> Option.is_none (run (the (jump_list_new (mem ex_other) 0 0 (<) ex_rng)) ex_odd_ops)"
  by code_simp

lemma ex_shared_nodes:
  "iter_nodes (the (run (the (jump_list_new (mem ex_other) 0 0 (<) ex_rng)) ex_odd_ops))
   = Some [11, 12, 13, 14, 15]"
  by code_simp

lemma ex_shared_inv:
  "jl_inv ex_shared [11, 12, 13, 14, 15]" "comp_m ex_shared = (<)" "header ex_shared = 0"
  using run_from_new[OF ex_shared_new int_less_swo ex_shared_defined ex_shared_nodes]
  by (simp_all add: ex_shared_def)

lemma ex_shared_data:
  "datum (mem ex_shared) 11 = 1" "datum (mem ex_shared) 12 = 3" "datum (mem ex_shared) 13 = 5"
  "datum (mem ex_shared) 14 = 7" "datum (mem ex_shared) 15 = 9"
  by code_simp+

lemma ex_shared_foreign:
  "map_option data (mem ex_shared 21) = Some 4" "map_option data (mem ex_shared 22) = Some 5"
  "iter_nodes ex_other = Some [21, 22]"
  by code_simp+

lemma ex_shared_size: "size_m ex_shared = 5"
  by code_simp

lemma ex_stale_defined: "\<not> Option.is_none (run ex_empty ex_stale_ops)"
  by code_simp

lemma ex_stale_nodes: "iter_nodes (the (run ex_empty ex_stale_ops)) = Some [11, 12, 14, 15]"
  by code_simp

lemma ex_stale_inv:
  "jl_inv ex_stale [11, 12, 14, 15]" "comp_m ex_stale = (<)" "header ex_stale = 0"
  using run_from_new[OF ex_empty_new int_less_swo ex_stale_defined ex_stale_nodes]
  by (simp_all add: ex_stale_def)

lemma ex_stale_freed: "mem ex_stale 13 = None"
  by code_simp

lemma ex_shared_swo: "strict_weak_order (comp_m ex_shared)"
  by (simp add: ex_shared_inv int_less_swo)

section \<open>The claims\<close>

subsection \<open>C1: sortedness\<close>

text \<open>
  Claim C1. Start from an empty container whose comparator is a strict weak order and
  apply any finite sequence of insert (succeeding or failing in the allocator), the three
  erase overloads and clear. Whenever the sequence runs to its end, iterating from
  \<open>begin()\<close> to \<open>end()\<close> over the level-0 links visits the stored elements strictly ascending
  under the comparator, and no two visited elements are comparator-equivalent. In the state
  reached, every operation called with valid arguments returns, so a sequence of valid calls
  always runs to its end.
\<close>

theorem sortedness_invariant:
  assumes "jump_list_new h hd_addr d0 c g = Some s0"
    and "strict_weak_order c"
    and "run s0 xs = Some s"
  shows "(\<exists>ns. iter_nodes s = Some ns \<and> elements s = Some (map (datum (mem s)) ns) \<and>
           sorted_wrt c (map (datum (mem s)) ns) \<and>
           sorted_wrt (\<lambda>x y. \<not> equiv c x y) (map (datum (mem s)) ns)) \<and>
         (\<forall>x. valid_operation s x \<longrightarrow> apply_operation s x \<noteq> None)"
proof -
  have c0: "comp_m s0 = c" using jump_list_new_inv[OF assms(1)] by simp
  from run_inv[OF assms(3) jump_list_new_inv(1)[OF assms(1)]] assms(2) c0
  obtain ns where inv: "jl_inv s ns" and c: "comp_m s = c" by auto
  have so: "sorted_wrt c (map (datum (mem s)) ns)" using inv c by (simp add: jl_inv_def)
  have "sorted_wrt (\<lambda>x y. \<not> equiv c x y) (map (datum (mem s)) ns)"
    by (rule sorted_wrt_mono_rel[OF _ so]) (simp add: equiv_def)
  moreover have "\<forall>x. valid_operation s x \<longrightarrow> apply_operation s x \<noteq> None"
    using valid_operation_defined[OF inv] assms(2) c by simp
  ultimately show ?thesis using so iter_nodes_inv[OF inv] elements_inv[OF inv] by blast
qed

lemma ex_mixed_defined: "\<not> Option.is_none (run ex_empty ex_mixed_ops)"
  by code_simp

lemma ex_mixed_nodes: "iter_nodes (the (run ex_empty ex_mixed_ops)) = Some [12, 11, 13]"
  by code_simp

lemma ex_mixed_elements: "elements ex_mixed = Some [3, 4, 8]"
  by code_simp

theorem sortedness_invariant_witness:
  "jump_list_new Map.empty 0 0 (<) ex_rng = Some ex_empty \<and>
   strict_weak_order ((<) :: int \<Rightarrow> int \<Rightarrow> bool) \<and>
   run ex_empty ex_mixed_ops = Some ex_mixed \<and>
   iter_nodes ex_mixed = Some [12, 11, 13] \<and> elements ex_mixed = Some [3, 4, 8] \<and>
   sorted_wrt (<) [3, 4, 8 :: int] \<and>
   sorted_wrt (\<lambda>x y. \<not> equiv (<) x y) [3, 4, 8 :: int] \<and>
   apply_operation ex_mixed (EraseKey 4) \<noteq> None"
proof -
  have r: "run ex_empty ex_mixed_ops = Some ex_mixed"
    using run_from_new(4)[OF ex_empty_new int_less_swo ex_mixed_defined ex_mixed_nodes]
    by (simp add: ex_mixed_def)
  note t = sortedness_invariant[OF ex_empty_new int_less_swo r]
  from t have p: "apply_operation ex_mixed (EraseKey 4) \<noteq> None"
    using valid_operation.simps(5)[of ex_mixed 4] by blast
  from t
  obtain ns where ns: "iter_nodes ex_mixed = Some ns"
    "elements ex_mixed = Some (map (datum (mem ex_mixed)) ns)"
    "sorted_wrt (<) (map (datum (mem ex_mixed)) ns)"
    "sorted_wrt (\<lambda>x y. \<not> equiv (<) x y) (map (datum (mem ex_mixed)) ns)" by blast
  from ns(2) ex_mixed_elements have "map (datum (mem ex_mixed)) ns = [3, 4, 8]" by simp
  with ns(1,3,4) ex_mixed_nodes[folded ex_mixed_def] ex_mixed_elements r ex_empty_new int_less_swo p
  show ?thesis by simp
qed

subsection \<open>C2: insert\<close>

text \<open>
  Claim C2. On a well-formed container with a strict weak order: if a stored element \<open>e\<close> is
  comparator-equivalent to \<open>v\<close>, then \<open>insert(v)\<close> returns the iterator to \<open>e\<close> with
  \<open>false\<close> and the container is unchanged, whatever the allocator would do. If no
  stored element is equivalent to \<open>v\<close> and node creation succeeds at a free address \<open>a\<close>,
  then \<open>insert(v)\<close> returns the iterator to the new node \<open>a\<close> with \<open>true\<close>; the new
  container is well formed, its iteration order is the old one with \<open>a\<close> put behind the
  nodes whose elements are ordered before \<open>v\<close>, the node \<open>a\<close> holds \<open>v\<close>, the other
  elements are as they were, and \<open>size()\<close> is one more. A further insert of any value
  equivalent to \<open>v\<close> into the new container returns the iterator to \<open>a\<close> with \<open>false\<close> and
  changes nothing.
\<close>

theorem insert_semantics:
  assumes inv: "jl_inv s ns" and swo: "strict_weak_order (comp_m s)"
  shows "(\<forall>e\<in>set ns. equiv (comp_m s) (datum (mem s) e) v \<longrightarrow>
            insert_value s v out
            = Some (Inr (\<lparr>it_node = Some e, it_header = Some (header s)\<rparr>, False), s)) \<and>
         ((\<forall>e\<in>set ns. \<not> equiv (comp_m s) (datum (mem s) e) v) \<and> mem s a = None \<longrightarrow>
            (\<exists>s'. insert_value s v (Created a)
                   = Some (Inr (\<lparr>it_node = Some a, it_header = Some (header s)\<rparr>, True), s') \<and>
                 jl_inv s' (takeWhile (\<lambda>b. comp_m s (datum (mem s) b) v) ns @ a #
                            dropWhile (\<lambda>b. comp_m s (datum (mem s) b) v) ns) \<and>
                 iter_nodes s' = Some (takeWhile (\<lambda>b. comp_m s (datum (mem s) b) v) ns @ a #
                            dropWhile (\<lambda>b. comp_m s (datum (mem s) b) v) ns) \<and>
                 datum (mem s') a = v \<and>
                 (\<forall>b\<in>set ns. datum (mem s') b = datum (mem s) b) \<and>
                 size_m s' = size_m s + 1 \<and>
                 (\<forall>w out'. equiv (comp_m s) v w \<longrightarrow>
                    insert_value s' w out'
                    = Some (Inr (\<lparr>it_node = Some a, it_header = Some (header s)\<rparr>, False), s'))))"
proof (intro conjI ballI impI)
  fix e assume e: "e \<in> set ns" "equiv (comp_m s) (datum (mem s) e) v"
  from insert_value_existing[OF inv swo e, of out] obtain c where
    c: "insert_value s v out
        = Some (Inr (\<lparr>it_node = Some c, it_header = Some (header s)\<rparr>, False), s)"
       "c \<in> set ns" "equiv (comp_m s) (datum (mem s) c) v" by blast
  from equiv_unique[OF inv c(2) e(1) equiv_trans[OF swo c(3) equiv_sym[OF e(2)]]] c(1)
  show "insert_value s v out
        = Some (Inr (\<lparr>it_node = Some e, it_header = Some (header s)\<rparr>, False), s)" by simp
next
  let ?P = "\<lambda>b. comp_m s (datum (mem s) b) v"
  assume "(\<forall>e\<in>set ns. \<not> equiv (comp_m s) (datum (mem s) e) v) \<and> mem s a = None"
  then have ne: "\<forall>e\<in>set ns. \<not> equiv (comp_m s) (datum (mem s) e) v" and fresh: "mem s a = None"
    by auto
  from insert_value_created[OF inv swo ne fresh] obtain s' where s':
    "insert_value s v (Created a)
       = Some (Inr (\<lparr>it_node = Some a, it_header = Some (header s)\<rparr>, True), s')"
    "jl_inv s' (takeWhile ?P ns @ a # dropWhile ?P ns)"
    "datum (mem s') a = v" "\<forall>b. b \<noteq> a \<longrightarrow> datum (mem s') b = datum (mem s) b"
    "size_m s' = size_m s + 1" "header s' = header s" "comp_m s' = comp_m s" by blast
  have a_notin: "a \<notin> set ns"
  proof
    assume "a \<in> set ns"
    from node_of_inv[OF inv this] fresh show False by simp
  qed
  have old: "\<forall>b\<in>set ns. datum (mem s') b = datum (mem s) b" using s'(4) a_notin by auto
  have swo': "strict_weak_order (comp_m s')" using swo s'(7) by simp
  have ain: "a \<in> set (takeWhile ?P ns @ a # dropWhile ?P ns)" by simp
  have again: "\<forall>w out'. equiv (comp_m s) v w \<longrightarrow>
       insert_value s' w out'
       = Some (Inr (\<lparr>it_node = Some a, it_header = Some (header s)\<rparr>, False), s')"
  proof (intro allI impI)
    fix w out' assume "equiv (comp_m s) v w"
    then have ew: "equiv (comp_m s') (datum (mem s') a) w" using s'(3,7) by simp
    from insert_value_existing[OF s'(2) swo' ain ew, of out'] obtain c where
      c: "insert_value s' w out'
          = Some (Inr (\<lparr>it_node = Some c, it_header = Some (header s')\<rparr>, False), s')"
         "c \<in> set (takeWhile ?P ns @ a # dropWhile ?P ns)"
         "equiv (comp_m s') (datum (mem s') c) w" by blast
    from equiv_unique[OF s'(2) c(2) ain equiv_trans[OF swo' c(3) equiv_sym[OF ew]]] c(1) s'(6)
    show "insert_value s' w out'
          = Some (Inr (\<lparr>it_node = Some a, it_header = Some (header s)\<rparr>, False), s')" by simp
  qed
  from s'(1,2,3,5) iter_nodes_inv[OF s'(2)] old again
  show "\<exists>s'. insert_value s v (Created a)
                   = Some (Inr (\<lparr>it_node = Some a, it_header = Some (header s)\<rparr>, True), s') \<and>
                 jl_inv s' (takeWhile ?P ns @ a # dropWhile ?P ns) \<and>
                 iter_nodes s' = Some (takeWhile ?P ns @ a # dropWhile ?P ns) \<and>
                 datum (mem s') a = v \<and>
                 (\<forall>b\<in>set ns. datum (mem s') b = datum (mem s) b) \<and>
                 size_m s' = size_m s + 1 \<and>
                 (\<forall>w out'. equiv (comp_m s) v w \<longrightarrow>
                    insert_value s' w out'
                    = Some (Inr (\<lparr>it_node = Some a, it_header = Some (header s)\<rparr>, False), s'))"
    by blast
qed

theorem insert_semantics_witness:
  "jl_inv ex_odd [11, 12, 13, 14, 15] \<and> strict_weak_order (comp_m ex_odd) \<and>
   datum (mem ex_odd) 13 = 5 \<and> size_m ex_odd = 5 \<and> mem ex_odd 20 = None \<and>
   insert_value ex_odd 5 (Created 20)
     = Some (Inr (\<lparr>it_node = Some 13, it_header = Some 0\<rparr>, False), ex_odd) \<and>
   (\<exists>s'. insert_value ex_odd 4 (Created 20)
            = Some (Inr (\<lparr>it_node = Some 20, it_header = Some 0\<rparr>, True), s') \<and>
          iter_nodes s' = Some [11, 12, 20, 13, 14, 15] \<and> datum (mem s') 20 = 4 \<and>
          size_m s' = 6 \<and>
          insert_value s' 4 AllocThrows
            = Some (Inr (\<lparr>it_node = Some 20, it_header = Some 0\<rparr>, False), s'))"
proof -
  note t5 = insert_semantics[OF ex_odd_inv(1) ex_odd_swo, of 5 "Created 20" 20]
  note t4 = insert_semantics[OF ex_odd_inv(1) ex_odd_swo, of 4 "Created 20" 20]
  have eq5: "equiv (comp_m ex_odd) (datum (mem ex_odd) 13) 5"
    by (simp add: ex_odd_inv ex_odd_data equiv_def)
  from t5 eq5 have a: "insert_value ex_odd 5 (Created 20)
     = Some (Inr (\<lparr>it_node = Some 13, it_header = Some 0\<rparr>, False), ex_odd)"
    by (simp add: ex_odd_inv)
  have ne4: "\<forall>e\<in>set [11, 12, 13, 14, 15]. \<not> equiv (comp_m ex_odd) (datum (mem ex_odd) e) 4"
    by (simp add: ex_odd_inv ex_odd_data equiv_def)
  have tw: "takeWhile (\<lambda>b. comp_m ex_odd (datum (mem ex_odd) b) 4) [11, 12, 13, 14, 15] = [11, 12]"
    "dropWhile (\<lambda>b. comp_m ex_odd (datum (mem ex_odd) b) 4) [11, 12, 13, 14, 15] = [13, 14, 15]"
    by (simp_all add: ex_odd_inv ex_odd_data)
  have e44: "equiv (comp_m ex_odd) 4 4" by (simp add: ex_odd_inv equiv_def)
  from t4 ne4 ex_odd_free e44 have b: "\<exists>s'. insert_value ex_odd 4 (Created 20)
            = Some (Inr (\<lparr>it_node = Some 20, it_header = Some 0\<rparr>, True), s') \<and>
          iter_nodes s' = Some [11, 12, 20, 13, 14, 15] \<and> datum (mem s') 20 = 4 \<and>
          size_m s' = 6 \<and>
          insert_value s' 4 AllocThrows
            = Some (Inr (\<lparr>it_node = Some 20, it_header = Some 0\<rparr>, False), s')"
    unfolding tw by (auto simp: ex_odd_inv(3) ex_odd_size)
  from a b ex_odd_inv(1) ex_odd_swo ex_odd_data(3) ex_odd_size ex_odd_free show ?thesis by blast
qed

subsection \<open>C3: lower\_bound and upper\_bound\<close>

text \<open>
  Claim C3. On a well-formed container whose comparator is a strict weak order,
  \<open>lower_bound k\<close> returns the iterator to the first node in iteration order whose element \<open>e\<close>
  has \<open>comp(e, k)\<close> false, and \<open>upper_bound k\<close> the iterator to the first node with
  \<open>comp(k, e)\<close> true; each returns \<open>end()\<close> (a null node) when there is no such node.
  On \<open>{1, 3, 5, 7, 9}\<close> under the default order, \<open>lower_bound(4)\<close> references 5,
  \<open>upper_bound(5)\<close> references 7 and \<open>upper_bound(9)\<close> is \<open>end()\<close>: see the witness.
\<close>

theorem bound_semantics:
  assumes "jl_inv s ns" and "strict_weak_order (comp_m s)"
  shows "lower_bound s k
           = Some \<lparr>it_node = List.find (\<lambda>a. \<not> comp_m s (datum (mem s) a) k) ns,
                   it_header = Some (header s)\<rparr>
         \<and> upper_bound s k
           = Some \<lparr>it_node = List.find (\<lambda>a. comp_m s k (datum (mem s) a)) ns,
                   it_header = Some (header s)\<rparr>"
  using search_lower[OF assms, of k] search_upper[OF assms, of k]
  by (auto simp: lower_bound_def upper_bound_def)

theorem bound_semantics_witness:
  "jl_inv ex_odd [11, 12, 13, 14, 15] \<and> strict_weak_order (comp_m ex_odd) \<and>
   lower_bound ex_odd 4 = Some \<lparr>it_node = Some 13, it_header = Some 0\<rparr> \<and>
   datum (mem ex_odd) 13 = 5 \<and>
   upper_bound ex_odd 5 = Some \<lparr>it_node = Some 14, it_header = Some 0\<rparr> \<and>
   datum (mem ex_odd) 14 = 7 \<and>
   upper_bound ex_odd 9 = Some (end_it ex_odd)"
  using bound_semantics[OF ex_odd_inv(1) ex_odd_swo, of 4]
    bound_semantics[OF ex_odd_inv(1) ex_odd_swo, of 5]
    bound_semantics[OF ex_odd_inv(1) ex_odd_swo, of 9]
  by (simp add: ex_odd_inv int_less_swo ex_odd_data end_it_def)

subsection \<open>C4: erase by position\<close>

text \<open>
  Claim C4 states that \<open>erase(pos)\<close> changes nothing and returns \<open>end()\<close> for every iterator
  on which the search does not land on an equivalent element, stale iterators included.
  The source reads \<open>*pos\<close> before it searches, and it keeps no record of which nodes are
  alive. In \<open>ex_stale\<close> the node 13 has been erased and destroyed; the container is well
  formed and holds no element equivalent to the erased 5, and \<open>erase\<close> at the stale iterator
  to node 13 reads destroyed storage: it has no defined result, so it is not the promised
  no-op.
\<close>

theorem erase_stale_position_undefined:
  "jl_inv ex_stale [11, 12, 14, 15] \<and> strict_weak_order (comp_m ex_stale) \<and>
   elements ex_stale = Some [1, 3, 7, 9] \<and> mem ex_stale 13 = None \<and>
   it_deref (mem ex_stale) \<lparr>it_node = Some 13, it_header = Some 0\<rparr> = None \<and>
   erase_pos ex_stale \<lparr>it_node = Some 13, it_header = Some 0\<rparr> = None \<and>
   erase_pos ex_stale \<lparr>it_node = Some 13, it_header = Some 0\<rparr>
     \<noteq> Some (end_it ex_stale, ex_stale)"
proof -
  have "erase_pos ex_stale \<lparr>it_node = Some 13, it_header = Some 0\<rparr> = None"
    by code_simp
  moreover have "elements ex_stale = Some [1, 3, 7, 9]"
    by code_simp
  moreover have "it_deref (mem ex_stale) \<lparr>it_node = Some 13, it_header = Some 0\<rparr> = None"
    by code_simp
  ultimately show ?thesis
    using ex_stale_inv ex_stale_freed int_less_swo by simp
qed

text \<open>
  Claim C4, amended. On a well-formed container with a strict weak order: \<open>erase(pos)\<close> with
  \<open>pos = end()\<close> changes nothing and returns \<open>end()\<close>. For a position whose node is alive
  (an element of this container, or a node outside it such as an element of another
  container) and holds the value \<open>x\<close>: if no stored element is comparator-equivalent to \<open>x\<close>
  (the search does not land on such an element: a foreign iterator), nothing changes and
  \<open>end()\<close> is returned; if the stored element at node \<open>e\<close> is equivalent to \<open>x\<close>, that node is
  removed, the other elements stay, \<open>size()\<close> is one less and the iterator to the node that
  followed \<open>e\<close> in iteration order is returned (\<open>end()\<close> if \<open>e\<close> was last). A position that
  references a node of the container always removes exactly that node. For a position
  whose node has been destroyed (a stale iterator) the read of \<open>*pos\<close> has no defined
  result, and neither has \<open>erase(pos)\<close>.
\<close>

theorem erase_by_position:
  assumes inv: "jl_inv s ns" and swo: "strict_weak_order (comp_m s)"
  shows "(it_node pos = None \<longrightarrow> erase_pos s pos = Some (end_it s, s)) \<and>
         (\<forall>p n. it_node pos = Some p \<and> mem s p = Some n \<and>
                (\<forall>e\<in>set ns. \<not> equiv (comp_m s) (datum (mem s) e) (data n)) \<longrightarrow>
                erase_pos s pos = Some (end_it s, s)) \<and>
         (\<forall>p n e. it_node pos = Some p \<and> mem s p = Some n \<and> e \<in> set ns \<and>
                equiv (comp_m s) (datum (mem s) e) (data n) \<longrightarrow>
                (\<exists>s'. erase_pos s pos
                        = Some (\<lparr>it_node = successor ns e, it_header = Some (header s)\<rparr>, s') \<and>
                      jl_inv s' (remove1 e ns) \<and> iter_nodes s' = Some (remove1 e ns) \<and>
                      (\<forall>b\<in>set (remove1 e ns). datum (mem s') b = datum (mem s) b) \<and>
                      size_m s' = size_m s - 1)) \<and>
         (\<forall>p. it_node pos = Some p \<and> p \<in> set ns \<longrightarrow>
                (\<exists>s'. erase_pos s pos
                        = Some (\<lparr>it_node = successor ns p, it_header = Some (header s)\<rparr>, s') \<and>
                      jl_inv s' (remove1 p ns) \<and> iter_nodes s' = Some (remove1 p ns) \<and>
                      (\<forall>b\<in>set (remove1 p ns). datum (mem s') b = datum (mem s) b) \<and>
                      size_m s' = size_m s - 1)) \<and>
         (\<forall>p. it_node pos = Some p \<and> mem s p = None \<longrightarrow> erase_pos s pos = None)"
proof -
  have dist: "distinct ns" using inv by (simp add: jl_inv_def)
  have present: "\<And>p n e. it_node pos = Some p \<Longrightarrow> mem s p = Some n \<Longrightarrow> e \<in> set ns \<Longrightarrow>
      equiv (comp_m s) (datum (mem s) e) (data n) \<Longrightarrow>
      \<exists>s'. erase_pos s pos
              = Some (\<lparr>it_node = successor ns e, it_header = Some (header s)\<rparr>, s') \<and>
            jl_inv s' (remove1 e ns) \<and> iter_nodes s' = Some (remove1 e ns) \<and>
            (\<forall>b\<in>set (remove1 e ns). datum (mem s') b = datum (mem s) b) \<and>
            size_m s' = size_m s - 1"
  proof -
    fix p n e assume a: "it_node pos = Some p" "mem s p = Some n" "e \<in> set ns"
      "equiv (comp_m s) (datum (mem s) e) (data n)"
    from erase_pos_present[OF inv swo a] obtain s' where s':
      "erase_pos s pos = Some (\<lparr>it_node = successor ns e, it_header = Some (header s)\<rparr>, s')"
      "jl_inv s' (remove1 e ns)" "\<forall>b. b \<noteq> e \<longrightarrow> datum (mem s') b = datum (mem s) b"
      "size_m s' = size_m s - 1" by blast
    have "\<forall>b\<in>set (remove1 e ns). datum (mem s') b = datum (mem s) b"
      using s'(3) dist by auto
    with s' iter_nodes_inv[OF s'(2)] show "\<exists>s'. erase_pos s pos
              = Some (\<lparr>it_node = successor ns e, it_header = Some (header s)\<rparr>, s') \<and>
            jl_inv s' (remove1 e ns) \<and> iter_nodes s' = Some (remove1 e ns) \<and>
            (\<forall>b\<in>set (remove1 e ns). datum (mem s') b = datum (mem s) b) \<and>
            size_m s' = size_m s - 1" by blast
  qed
  have own: "\<And>p. it_node pos = Some p \<Longrightarrow> p \<in> set ns \<Longrightarrow>
      \<exists>s'. erase_pos s pos
              = Some (\<lparr>it_node = successor ns p, it_header = Some (header s)\<rparr>, s') \<and>
            jl_inv s' (remove1 p ns) \<and> iter_nodes s' = Some (remove1 p ns) \<and>
            (\<forall>b\<in>set (remove1 p ns). datum (mem s') b = datum (mem s) b) \<and>
            size_m s' = size_m s - 1"
  proof -
    fix p assume a: "it_node pos = Some p" "p \<in> set ns"
    from node_of_inv[OF inv a(2)] obtain n where n: "mem s p = Some n" "data n = datum (mem s) p"
      by blast
    have "equiv (comp_m s) (datum (mem s) p) (data n)" using equiv_refl[OF swo] n(2) by simp
    from present[OF a(1) n(1) a(2) this] show "\<exists>s'. erase_pos s pos
              = Some (\<lparr>it_node = successor ns p, it_header = Some (header s)\<rparr>, s') \<and>
            jl_inv s' (remove1 p ns) \<and> iter_nodes s' = Some (remove1 p ns) \<and>
            (\<forall>b\<in>set (remove1 p ns). datum (mem s') b = datum (mem s) b) \<and>
            size_m s' = size_m s - 1" .
  qed
  have at_end: "it_node pos = None \<longrightarrow> erase_pos s pos = Some (end_it s, s)"
    by (simp add: erase_pos_def it_eq_def end_it_def)
  have absent: "\<forall>p n. it_node pos = Some p \<and> mem s p = Some n \<and>
                (\<forall>e\<in>set ns. \<not> equiv (comp_m s) (datum (mem s) e) (data n)) \<longrightarrow>
                erase_pos s pos = Some (end_it s, s)"
    using erase_pos_absent[OF inv swo] by blast
  have freed: "\<forall>p. it_node pos = Some p \<and> mem s p = None \<longrightarrow> erase_pos s pos = None"
    by (simp add: erase_pos_def it_eq_def end_it_def it_deref_def deref_def)
  from at_end absent present own freed show ?thesis by blast
qed

theorem erase_by_position_witness:
  "jl_inv ex_shared [11, 12, 13, 14, 15] \<and> strict_weak_order (comp_m ex_shared) \<and>
   erase_pos ex_shared (end_it ex_shared) = Some (end_it ex_shared, ex_shared) \<and>
   map_option data (mem ex_shared 21) = Some 4 \<and>
   erase_pos ex_shared \<lparr>it_node = Some 21, it_header = Some 20\<rparr>
     = Some (end_it ex_shared, ex_shared) \<and>
   map_option data (mem ex_shared 22) = Some 5 \<and>
   (\<exists>s'. erase_pos ex_shared \<lparr>it_node = Some 22, it_header = Some 20\<rparr>
            = Some (\<lparr>it_node = Some 14, it_header = Some 0\<rparr>, s') \<and>
          iter_nodes s' = Some [11, 12, 14, 15] \<and> size_m s' = 4) \<and>
   (\<exists>s'. erase_pos ex_shared \<lparr>it_node = Some 13, it_header = Some 0\<rparr>
            = Some (\<lparr>it_node = Some 14, it_header = Some 0\<rparr>, s') \<and>
          iter_nodes s' = Some [11, 12, 14, 15] \<and> size_m s' = 4) \<and>
   (\<exists>s'. erase_pos ex_shared \<lparr>it_node = Some 15, it_header = Some 0\<rparr>
            = Some (end_it ex_shared, s') \<and>
          iter_nodes s' = Some [11, 12, 13, 14] \<and> size_m s' = 4) \<and>
   jl_inv ex_stale [11, 12, 14, 15] \<and> mem ex_stale 13 = None \<and>
   erase_pos ex_stale \<lparr>it_node = Some 13, it_header = Some 0\<rparr> = None"
proof -
  note t = erase_by_position[OF ex_shared_inv(1) ex_shared_swo]
  have a: "erase_pos ex_shared (end_it ex_shared) = Some (end_it ex_shared, ex_shared)"
    using t[of "end_it ex_shared"] by (simp add: end_it_def)
  from ex_shared_foreign(1) obtain n where n: "mem ex_shared 21 = Some n" "data n = 4" by auto
  have "\<forall>e\<in>set [11, 12, 13, 14, 15].
          \<not> equiv (comp_m ex_shared) (datum (mem ex_shared) e) (data n)"
    by (simp add: ex_shared_inv ex_shared_data equiv_def n)
  with t[of "\<lparr>it_node = Some 21, it_header = Some 20\<rparr>"] n
  have b: "erase_pos ex_shared \<lparr>it_node = Some 21, it_header = Some 20\<rparr>
             = Some (end_it ex_shared, ex_shared)"
    by simp
  from ex_shared_foreign(2) obtain m where m: "mem ex_shared 22 = Some m" "data m = 5" by auto
  have "equiv (comp_m ex_shared) (datum (mem ex_shared) 13) (data m)"
    by (simp add: ex_shared_inv ex_shared_data equiv_def m)
  with t[of "\<lparr>it_node = Some 22, it_header = Some 20\<rparr>"] m(1)
  have "\<exists>s'. erase_pos ex_shared \<lparr>it_node = Some 22, it_header = Some 20\<rparr>
            = Some (\<lparr>it_node = successor [11, 12, 13, 14, 15] 13, it_header = Some 0\<rparr>, s') \<and>
          iter_nodes s' = Some (remove1 13 [11, 12, 13, 14, 15]) \<and>
          size_m s' = size_m ex_shared - 1"
    by (auto simp: ex_shared_inv(3))
  then have f: "\<exists>s'. erase_pos ex_shared \<lparr>it_node = Some 22, it_header = Some 20\<rparr>
            = Some (\<lparr>it_node = Some 14, it_header = Some 0\<rparr>, s') \<and>
          iter_nodes s' = Some [11, 12, 14, 15] \<and> size_m s' = 4"
    by (simp add: ex_shared_size)
  have c: "\<exists>s'. erase_pos ex_shared \<lparr>it_node = Some 13, it_header = Some 0\<rparr>
            = Some (\<lparr>it_node = Some 14, it_header = Some 0\<rparr>, s') \<and>
          iter_nodes s' = Some [11, 12, 14, 15] \<and> size_m s' = 4"
    using t[of "\<lparr>it_node = Some 13, it_header = Some 0\<rparr>"]
    by (auto simp: ex_shared_inv(3) ex_shared_size)
  have d: "\<exists>s'. erase_pos ex_shared \<lparr>it_node = Some 15, it_header = Some 0\<rparr>
            = Some (end_it ex_shared, s') \<and>
          iter_nodes s' = Some [11, 12, 13, 14] \<and> size_m s' = 4"
    using t[of "\<lparr>it_node = Some 15, it_header = Some 0\<rparr>"]
    by (auto simp: ex_shared_inv(3) ex_shared_size end_it_def)
  have e: "erase_pos ex_stale \<lparr>it_node = Some 13, it_header = Some 0\<rparr> = None"
    using erase_by_position[OF ex_stale_inv(1), of "\<lparr>it_node = Some 13, it_header = Some 0\<rparr>"]
      ex_stale_freed by (simp add: ex_stale_inv(2) int_less_swo)
  from a b f c d e ex_shared_inv(1) ex_shared_swo ex_shared_foreign(1,2) ex_stale_inv(1)
    ex_stale_freed
  show ?thesis by blast
qed

subsection \<open>C5: erase by key\<close>

text \<open>
  Claim C5. On a well-formed container with a strict weak order, \<open>erase(k)\<close> returns 0 or 1.
  If the element at node \<open>e\<close> is comparator-equivalent to \<open>k\<close>, it returns 1, the node \<open>e\<close>
  is removed and the other elements stay, \<open>size()\<close> is one less, and afterwards
  \<open>find(k) = end()\<close>. If no stored element is equivalent to \<open>k\<close>, it returns 0 and the
  container is unchanged.
\<close>

theorem erase_by_key:
  assumes inv: "jl_inv s ns" and swo: "strict_weak_order (comp_m s)"
  shows "(\<exists>s'. erase_key s k = Some (0, s') \<or> erase_key s k = Some (1, s')) \<and>
         (\<forall>e\<in>set ns. equiv (comp_m s) (datum (mem s) e) k \<longrightarrow>
            (\<exists>s'. erase_key s k = Some (1, s') \<and>
                 jl_inv s' (remove1 e ns) \<and> iter_nodes s' = Some (remove1 e ns) \<and>
                 (\<forall>b\<in>set (remove1 e ns). datum (mem s') b = datum (mem s) b) \<and>
                 size_m s' = size_m s - 1 \<and>
                 find_key s' k = Some (end_it s'))) \<and>
         ((\<forall>e\<in>set ns. \<not> equiv (comp_m s) (datum (mem s) e) k) \<longrightarrow>
            erase_key s k = Some (0, s))"
proof -
  have dist: "distinct ns" using inv by (simp add: jl_inv_def)
  have present: "\<And>e. e \<in> set ns \<Longrightarrow> equiv (comp_m s) (datum (mem s) e) k \<Longrightarrow>
      \<exists>s'. erase_key s k = Some (1, s') \<and>
           jl_inv s' (remove1 e ns) \<and> iter_nodes s' = Some (remove1 e ns) \<and>
           (\<forall>b\<in>set (remove1 e ns). datum (mem s') b = datum (mem s) b) \<and>
           size_m s' = size_m s - 1 \<and>
           find_key s' k = Some (end_it s')"
  proof -
    fix e assume e: "e \<in> set ns" "equiv (comp_m s) (datum (mem s) e) k"
    from erase_key_present[OF inv swo e] obtain s' where s':
      "erase_key s k = Some (1, s')" "jl_inv s' (remove1 e ns)"
      "\<forall>b. b \<noteq> e \<longrightarrow> datum (mem s') b = datum (mem s) b"
      "size_m s' = size_m s - 1" "find_key s' k = Some (end_it s')" by blast
    have "\<forall>b\<in>set (remove1 e ns). datum (mem s') b = datum (mem s) b"
      using s'(3) dist by auto
    with s' iter_nodes_inv[OF s'(2)] show "\<exists>s'. erase_key s k = Some (1, s') \<and>
           jl_inv s' (remove1 e ns) \<and> iter_nodes s' = Some (remove1 e ns) \<and>
           (\<forall>b\<in>set (remove1 e ns). datum (mem s') b = datum (mem s) b) \<and>
           size_m s' = size_m s - 1 \<and>
           find_key s' k = Some (end_it s')" by blast
  qed
  have absent: "(\<forall>e\<in>set ns. \<not> equiv (comp_m s) (datum (mem s) e) k) \<longrightarrow>
            erase_key s k = Some (0, s)"
    using erase_key_absent[OF inv swo] by blast
  have "\<exists>s'. erase_key s k = Some (0, s') \<or> erase_key s k = Some (1, s')"
    using present absent by blast
  with present absent show ?thesis by blast
qed

theorem erase_by_key_witness:
  "jl_inv ex_odd [11, 12, 13, 14, 15] \<and> strict_weak_order (comp_m ex_odd) \<and>
   erase_key ex_odd 4 = Some (0, ex_odd) \<and>
   (\<exists>s'. erase_key ex_odd 5 = Some (1, s') \<and> iter_nodes s' = Some [11, 12, 14, 15] \<and>
          size_m s' = 4 \<and> find_key s' 5 = Some (end_it s'))"
proof -
  note t4 = erase_by_key[OF ex_odd_inv(1) ex_odd_swo, of 4]
  note t5 = erase_by_key[OF ex_odd_inv(1) ex_odd_swo, of 5]
  have "\<forall>e\<in>set [11, 12, 13, 14, 15]. \<not> equiv (comp_m ex_odd) (datum (mem ex_odd) e) 4"
    by (simp add: ex_odd_inv ex_odd_data equiv_def)
  with t4 have a: "erase_key ex_odd 4 = Some (0, ex_odd)" by blast
  have "equiv (comp_m ex_odd) (datum (mem ex_odd) 13) 5"
    by (simp add: ex_odd_inv ex_odd_data equiv_def)
  with t5 have b: "\<exists>s'. erase_key ex_odd 5 = Some (1, s') \<and> iter_nodes s' = Some [11, 12, 14, 15] \<and>
          size_m s' = 4 \<and> find_key s' 5 = Some (end_it s')"
    by (auto simp: ex_odd_size)
  from a b ex_odd_inv(1) ex_odd_swo show ?thesis by blast
qed

subsection \<open>C6: insert when node creation fails\<close>

text \<open>
  Claim C6 says that a failed insert leaves every invariant of the data model intact.
  The source raises \<open>level\<close> before it calls \<open>createNode\<close>, and does not lower it again when
  \<open>createNode\<close> throws. On the empty container \<open>ex_empty\<close> (level 0, first draw successful,
  so the new level is 1) an insert whose allocation throws passes the exception on and
  leaves the memory as it was, no node is reachable and the size is still 0; but \<open>level\<close>
  is 1 although the header has no link at level 1, so \<open>level\<close> is no longer the
  smallest value above which all header links are null.
\<close>

theorem insert_alloc_failure_raises_level:
  "level ex_empty = 0 \<and> size_m ex_empty = 0 \<and> iter_nodes ex_empty = Some [] \<and>
   fst (randomLevel (rng ex_empty)) = 1 \<and>
   map_option (\<lambda>(r, s'). (r, level s', forward_at (mem s') (header s') 1,
                           forward_at (mem s') (header s') 0, iter_nodes s', size_m s',
                           mem s' 11))
     (insert_value ex_empty 5 AllocThrows)
   = Some (Inl BadAlloc, 1, Some None, Some None, Some [], 0, None) \<and>
   map_option (\<lambda>(r, s'). (r, level s', forward_at (mem s') (header s') 1,
                           forward_at (mem s') (header s') 0, iter_nodes s', size_m s',
                           mem s' 11))
     (insert_value ex_empty 5 (ConstructThrows 11))
   = Some (Inl ConstructorThrew, 1, Some None, Some None, Some [], 0, None)"
  by code_simp

subsection \<open>C7: equal\_range\<close>

text \<open>
  Claim C7. On a well-formed container with a strict weak order: if the element at node \<open>e\<close>
  is comparator-equivalent to \<open>k\<close>, \<open>equal_range(k)\<close> returns the iterator to \<open>e\<close> and the
  iterator to the node that follows \<open>e\<close> in iteration order (\<open>end()\<close> if there is none). If
  no stored element is equivalent to \<open>k\<close>, both iterators are \<open>end()\<close>, also when the
  container holds elements ordered after \<open>k\<close>.
\<close>

theorem equal_range_semantics:
  assumes inv: "jl_inv s ns" and swo: "strict_weak_order (comp_m s)"
  shows "(\<forall>e\<in>set ns. equiv (comp_m s) (datum (mem s) e) k \<longrightarrow>
            equal_range s k
            = Some (\<lparr>it_node = Some e, it_header = Some (header s)\<rparr>,
                    \<lparr>it_node = successor ns e, it_header = Some (header s)\<rparr>)) \<and>
         ((\<forall>e\<in>set ns. \<not> equiv (comp_m s) (datum (mem s) e) k) \<longrightarrow>
            equal_range s k = Some (end_it s, end_it s))"
  using equal_range_present[OF inv swo] equal_range_absent[OF inv swo] by blast

theorem equal_range_semantics_witness:
  "jl_inv ex_odd [11, 12, 13, 14, 15] \<and> strict_weak_order (comp_m ex_odd) \<and>
   equal_range ex_odd 42 = Some (end_it ex_odd, end_it ex_odd) \<and>
   equal_range ex_odd 4 = Some (end_it ex_odd, end_it ex_odd) \<and>
   equal_range ex_odd 5 = Some (\<lparr>it_node = Some 13, it_header = Some 0\<rparr>,
                                \<lparr>it_node = Some 14, it_header = Some 0\<rparr>) \<and>
   equal_range ex_odd 9 = Some (\<lparr>it_node = Some 15, it_header = Some 0\<rparr>, end_it ex_odd)"
proof -
  note t = equal_range_semantics[OF ex_odd_inv(1) ex_odd_swo]
  have "\<forall>e\<in>set [11, 12, 13, 14, 15]. \<not> equiv (comp_m ex_odd) (datum (mem ex_odd) e) 42"
    by (simp add: ex_odd_inv ex_odd_data equiv_def)
  with t[of 42] have a: "equal_range ex_odd 42 = Some (end_it ex_odd, end_it ex_odd)" by blast
  have "\<forall>e\<in>set [11, 12, 13, 14, 15]. \<not> equiv (comp_m ex_odd) (datum (mem ex_odd) e) 4"
    by (simp add: ex_odd_inv ex_odd_data equiv_def)
  with t[of 4] have b: "equal_range ex_odd 4 = Some (end_it ex_odd, end_it ex_odd)" by blast
  have "equiv (comp_m ex_odd) (datum (mem ex_odd) 13) 5"
    by (simp add: ex_odd_inv ex_odd_data equiv_def)
  with t[of 5] have c: "equal_range ex_odd 5
      = Some (\<lparr>it_node = Some 13, it_header = Some 0\<rparr>, \<lparr>it_node = Some 14, it_header = Some 0\<rparr>)"
    by (simp add: ex_odd_inv(3))
  have "equiv (comp_m ex_odd) (datum (mem ex_odd) 15) 9"
    by (simp add: ex_odd_inv ex_odd_data equiv_def)
  with t[of 9] have d: "equal_range ex_odd 9
      = Some (\<lparr>it_node = Some 15, it_header = Some 0\<rparr>, end_it ex_odd)"
    by (simp add: ex_odd_inv(3) end_it_def)
  from a b c d ex_odd_inv(1) ex_odd_swo show ?thesis by blast
qed

subsection \<open>C10: the empty range\<close>

text \<open>
  Claim C10. For every container and every iterator \<open>it\<close>, the range overload
  \<open>erase(it, it)\<close> leaves the container unchanged and returns \<open>end()\<close>, whether \<open>it\<close>
  references a node or is \<open>end()\<close> itself. So the returned iterator compares equal to the
  position passed in only if that position is \<open>end()\<close>.
\<close>

theorem erase_empty_range_returns_end:
  "erase_range s it it = Some (end_it s, s) \<and>
   (it_eq (end_it s) it \<longleftrightarrow> it_node it = None)"
  using erase_range_empty[of s it] by (auto simp: it_eq_def end_it_def)

theorem erase_empty_range_returns_end_witness:
  "erase_range ex_odd \<lparr>it_node = Some 13, it_header = Some 0\<rparr>
                      \<lparr>it_node = Some 13, it_header = Some 0\<rparr>
     = Some (\<lparr>it_node = None, it_header = Some 0\<rparr>, ex_odd) \<and>
   \<not> it_eq (end_it ex_odd) \<lparr>it_node = Some 13, it_header = Some 0\<rparr> \<and>
   erase_range ex_odd (end_it ex_odd) (end_it ex_odd) = Some (end_it ex_odd, ex_odd)"
  using erase_empty_range_returns_end[of ex_odd "\<lparr>it_node = Some 13, it_header = Some 0\<rparr>"]
    erase_empty_range_returns_end[of ex_odd "end_it ex_odd"]
  by (simp add: end_it_def ex_odd_inv(3))

subsection \<open>C8: comparing whole containers\<close>

text \<open>
  Claim C8 states that \<open>operator==\<close> holds iff the sizes agree and the elements are
  pairwise comparator-equivalent. The source compares with \<open>std::equal\<close>, that is with the
  element type's own \<open>operator==\<close>. With the comparator \<open>tens_less\<close> the containers \<open>{1}\<close>
  and \<open>{2}\<close> have the same size and comparator-equivalent elements, and \<open>operator==\<close>
  is false.
\<close>

theorem operator_eq_is_not_comparator_equivalence:
  "size_m ex_tens_1 = size_m ex_tens_2 \<and>
   elements ex_tens_1 = Some [1] \<and> elements ex_tens_2 = Some [2] \<and>
   equiv (comp_m ex_tens_1) 1 2 \<and> comp_m ex_tens_2 1 2 = comp_m ex_tens_1 1 2 \<and>
   jl_equal (=) ex_tens_1 ex_tens_2 = Some False"
  by code_simp

text \<open>
  Claim C8, amended. For two well-formed containers (each with fewer than \<open>2^64\<close> nodes, the
  range of \<open>size_t\<close>), \<open>operator==\<close> returns true iff the sizes agree and the elements are
  pairwise equal under the element type's \<open>operator==\<close> (\<open>eq\<close>) in iteration order; where
  that operator coincides with comparator-equivalence this is the claim as stated.
  \<open>operator<\<close> returns true iff the first iteration sequence is lexicographically less than
  the second under the element type's \<open>operator<\<close> (\<open>lt\<close>); for a strict linear order
  this is the lexicographic order of lists.
\<close>

theorem whole_container_comparison:
  assumes "jl_inv lhs xs" and "jl_inv rhs ys"
    and "length xs < 2 ^ 64" and "length ys < 2 ^ 64"
  shows "jl_equal eq lhs rhs
           = Some (size_m lhs = size_m rhs \<and>
                   list_all2 eq (map (datum (mem lhs)) xs) (map (datum (mem rhs)) ys)) \<and>
         ((\<forall>x y. eq x y = equiv (comp_m lhs) x y) \<longrightarrow>
          jl_equal eq lhs rhs
           = Some (size_m lhs = size_m rhs \<and>
                   list_all2 (equiv (comp_m lhs))
                     (map (datum (mem lhs)) xs) (map (datum (mem rhs)) ys))) \<and>
         jl_less lt lhs rhs
           = Some (lex_less lt (map (datum (mem lhs)) xs) (map (datum (mem rhs)) ys)) \<and>
         ((\<forall>x y. lt x y \<longrightarrow> \<not> lt y x) \<and> (\<forall>x y. x \<noteq> y \<longrightarrow> lt x y \<or> lt y x) \<longrightarrow>
          jl_less lt lhs rhs
           = Some ((map (datum (mem lhs)) xs, map (datum (mem rhs)) ys)
                   \<in> lexord {(x, y). lt x y}))"
proof -
  have sz: "size_m lhs = of_nat (length xs)" "size_m rhs = of_nat (length ys)"
    using assms(1,2) by (auto simp: jl_inv_def)
  have se: "(size_m lhs = size_m rhs) = (length xs = length ys)"
    unfolding sz by (rule size_eq_length[OF assms(3,4)])
  have l2: "\<And>r. list_all2 r (map (datum (mem lhs)) xs) (map (datum (mem rhs)) ys)
      \<Longrightarrow> size_m lhs = size_m rhs"
    using se by (auto dest: list_all2_lengthD)
  have e: "jl_equal eq lhs rhs
           = Some (size_m lhs = size_m rhs \<and>
                   list_all2 eq (map (datum (mem lhs)) xs) (map (datum (mem rhs)) ys))"
    using jl_equal_spec[OF assms, of eq] l2[of eq] by auto
  have e': "(\<forall>x y. eq x y = equiv (comp_m lhs) x y) \<longrightarrow>
          jl_equal eq lhs rhs
           = Some (size_m lhs = size_m rhs \<and>
                   list_all2 (equiv (comp_m lhs))
                     (map (datum (mem lhs)) xs) (map (datum (mem rhs)) ys))"
  proof
    assume "\<forall>x y. eq x y = equiv (comp_m lhs) x y"
    then have "eq = equiv (comp_m lhs)" by (intro ext) simp
    with e show "jl_equal eq lhs rhs
           = Some (size_m lhs = size_m rhs \<and>
                   list_all2 (equiv (comp_m lhs))
                     (map (datum (mem lhs)) xs) (map (datum (mem rhs)) ys))" by simp
  qed
  have l: "jl_less lt lhs rhs
           = Some (lex_less lt (map (datum (mem lhs)) xs) (map (datum (mem rhs)) ys))"
    by (rule jl_less_spec[OF assms(1,2)])
  have l': "(\<forall>x y. lt x y \<longrightarrow> \<not> lt y x) \<and> (\<forall>x y. x \<noteq> y \<longrightarrow> lt x y \<or> lt y x) \<longrightarrow>
          jl_less lt lhs rhs
           = Some ((map (datum (mem lhs)) xs, map (datum (mem rhs)) ys)
                   \<in> lexord {(x, y). lt x y})"
  proof
    assume a: "(\<forall>x y. lt x y \<longrightarrow> \<not> lt y x) \<and> (\<forall>x y. x \<noteq> y \<longrightarrow> lt x y \<or> lt y x)"
    have "lex_less lt (map (datum (mem lhs)) xs) (map (datum (mem rhs)) ys)
        = ((map (datum (mem lhs)) xs, map (datum (mem rhs)) ys) \<in> lexord {(x, y). lt x y})"
      by (rule lex_less_lexord) (use a in blast)+
    with l show "jl_less lt lhs rhs
           = Some ((map (datum (mem lhs)) xs, map (datum (mem rhs)) ys)
                   \<in> lexord {(x, y). lt x y})" by simp
  qed
  from e e' l l' show ?thesis by blast
qed

lemma ex_123_inv: "jl_inv ex_123 [11, 12, 13]"
proof -
  have d: "\<not> Option.is_none (run ex_empty
      [Insert 1 (Created 11), Insert 2 (Created 12), Insert 3 (Created 13)])" by code_simp
  have n: "iter_nodes (the (run ex_empty
      [Insert 1 (Created 11), Insert 2 (Created 12), Insert 3 (Created 13)]))
      = Some [11, 12, 13]" by code_simp
  from run_from_new(1)[OF ex_empty_new int_less_swo d n] show ?thesis by (simp add: ex_123_def)
qed

lemma ex_124_inv: "jl_inv ex_124 [13, 12, 11]"
proof -
  have d: "\<not> Option.is_none (run ex_empty
      [Insert 4 (Created 11), Insert 2 (Created 12), Insert 1 (Created 13)])" by code_simp
  have n: "iter_nodes (the (run ex_empty
      [Insert 4 (Created 11), Insert 2 (Created 12), Insert 1 (Created 13)]))
      = Some [13, 12, 11]" by code_simp
  from run_from_new(1)[OF ex_empty_new int_less_swo d n] show ?thesis by (simp add: ex_124_def)
qed

lemma ex_1234_inv: "jl_inv ex_1234 [11, 12, 13, 14]"
proof -
  have d: "\<not> Option.is_none (run ex_empty
      [Insert 1 (Created 11), Insert 2 (Created 12), Insert 3 (Created 13),
       Insert 4 (Created 14)])" by code_simp
  have n: "iter_nodes (the (run ex_empty
      [Insert 1 (Created 11), Insert 2 (Created 12), Insert 3 (Created 13),
       Insert 4 (Created 14)]))
      = Some [11, 12, 13, 14]" by code_simp
  from run_from_new(1)[OF ex_empty_new int_less_swo d n] show ?thesis by (simp add: ex_1234_def)
qed

lemma ex_cmp_data:
  "map (datum (mem ex_123)) [11, 12, 13] = [1, 2, 3]"
  "map (datum (mem ex_124)) [13, 12, 11] = [1, 2, 4]"
  "map (datum (mem ex_1234)) [11, 12, 13, 14] = [1, 2, 3, 4]"
  by code_simp+

lemma ex_cmp_size: "size_m ex_123 = 3" "size_m ex_124 = 3" "size_m ex_1234 = 4"
  by code_simp+

theorem whole_container_comparison_witness:
  "jl_inv ex_123 [11, 12, 13] \<and> jl_inv ex_124 [13, 12, 11] \<and> jl_inv ex_1234 [11, 12, 13, 14] \<and>
   elements ex_123 = Some [1, 2, 3] \<and> elements ex_124 = Some [1, 2, 4] \<and>
   elements ex_1234 = Some [1, 2, 3, 4] \<and>
   jl_less (<) ex_123 ex_124 = Some True \<and> jl_less (<) ex_123 ex_1234 = Some True \<and>
   jl_less (<) ex_124 ex_123 = Some False \<and>
   jl_equal (=) ex_123 ex_123 = Some True \<and> jl_equal (=) ex_123 ex_124 = Some False \<and>
   jl_equal (=) ex_123 ex_1234 = Some False"
proof -
  have b3: "length [11, 12, 13 :: addr] < 2 ^ 64" "length [13, 12, 11 :: addr] < 2 ^ 64"
    and b4: "length [11, 12, 13, 14 :: addr] < 2 ^ 64" by simp_all
  note a = whole_container_comparison[OF ex_123_inv ex_124_inv b3(1) b3(2), of "(=)" "(<)"]
  note b = whole_container_comparison[OF ex_123_inv ex_1234_inv b3(1) b4, of "(=)" "(<)"]
  note c = whole_container_comparison[OF ex_124_inv ex_123_inv b3(2) b3(1), of "(=)" "(<)"]
  note d = whole_container_comparison[OF ex_123_inv ex_123_inv b3(1) b3(1), of "(=)" "(<)"]
  have el: "elements ex_123 = Some [1, 2, 3]" "elements ex_124 = Some [1, 2, 4]"
    "elements ex_1234 = Some [1, 2, 3, 4]"
    using elements_inv[OF ex_123_inv] elements_inv[OF ex_124_inv] elements_inv[OF ex_1234_inv]
    by (simp_all only: ex_cmp_data)
  have r1: "jl_less (<) ex_123 ex_124 = Some True" using a by (simp only: ex_cmp_data) simp
  have r2: "jl_less (<) ex_123 ex_1234 = Some True" using b by (simp only: ex_cmp_data) simp
  have r3: "jl_less (<) ex_124 ex_123 = Some False" using c by (simp only: ex_cmp_data) simp
  have r4: "jl_equal (=) ex_123 ex_123 = Some True" using d by (simp only: ex_cmp_data) simp
  have r5: "jl_equal (=) ex_123 ex_124 = Some False" using a by (simp only: ex_cmp_data) simp
  have r6: "jl_equal (=) ex_123 ex_1234 = Some False"
    using b by (simp only: ex_cmp_data ex_cmp_size) simp
  from ex_123_inv ex_124_inv ex_1234_inv el r1 r2 r3 r4 r5 r6 show ?thesis by blast
qed

end
